theory Spec2Isabelle
  imports Main "HOL-Library.Word"
begin

unbundle bit_operations_syntax

section \<open>The machine state of the CHIP-8 interpreter (class Chip8)\<close>

type_synonym u8 = "8 word"
type_synonym u16 = "16 word"

definition MEMORY_SIZE :: nat where "MEMORY_SIZE = 4096"
definition START_ADDR :: nat where "START_ADDR = 0x200"
definition FONTSET_ADDR :: nat where "FONTSET_ADDR = 0x000"
definition FONTSET_SIZE :: nat where "FONTSET_SIZE = 80"
definition DISPLAY_WIDTH :: nat where "DISPLAY_WIDTH = 64"
definition DISPLAY_HEIGHT :: nat where "DISPLAY_HEIGHT = 32"

definition fontset :: "u8 list" where
  "fontset =
    [0xF0, 0x90, 0x90, 0x90, 0xF0,
     0x20, 0x60, 0x20, 0x20, 0x70,
     0xF0, 0x10, 0xF0, 0x80, 0xF0,
     0xF0, 0x10, 0xF0, 0x10, 0xF0,
     0x90, 0x90, 0xF0, 0x10, 0x10,
     0xF0, 0x80, 0xF0, 0x10, 0xF0,
     0xF0, 0x80, 0xF0, 0x90, 0xF0,
     0xF0, 0x10, 0x20, 0x40, 0x40,
     0xF0, 0x90, 0xF0, 0x90, 0xF0,
     0xF0, 0x90, 0xF0, 0x10, 0xF0,
     0xF0, 0x90, 0xF0, 0x90, 0x90,
     0xE0, 0x90, 0xE0, 0x90, 0xE0,
     0xF0, 0x80, 0x80, 0x80, 0xF0,
     0xE0, 0x90, 0x90, 0x90, 0xE0,
     0xF0, 0x80, 0xF0, 0x80, 0xF0,
     0xF0, 0x80, 0xF0, 0x80, 0x80]"

text \<open>
  The private members of \<^verbatim>\<open>class Chip8\<close>. The fixed-size C++ arrays are lists; their
  declared sizes are the invariant \<open>wf\<close> below. A subscript of \<^verbatim>\<open>memory\<close>, \<^verbatim>\<open>keypad\<close> or \<^verbatim>\<open>stack\<close>
  is checked against the declared size in the model; a subscript of \<^verbatim>\<open>V\<close> is a decoded 4-bit
  field or a loop index up to one, and a subscript of \<^verbatim>\<open>display\<close> is bounded by the guards of
  the drawing loops.
\<close>

record chip8 =
  memory :: "u8 list"
  V :: "u8 list"
  I :: u16
  pc :: u16
  sp :: u8
  stack :: "u16 list"
  delay_timer :: u8
  sound_timer :: u8
  keypad :: "u8 list"
  display :: "u8 list"
  drawFlag :: bool

definition wf :: "chip8 \<Rightarrow> bool" where
  "wf s \<longleftrightarrow>
     length (memory s) = MEMORY_SIZE \<and> length (V s) = 16 \<and> length (stack s) = 16 \<and>
     length (keypad s) = 16 \<and> length (display s) = DISPLAY_WIDTH * DISPLAY_HEIGHT"

text \<open>
  An array subscript outside the declared size is undefined behaviour in the source; the
  model makes it the error value \<open>OutOfBounds\<close>.
\<close>

datatype error = OutOfBounds

datatype load_error = FileNotOpen | RomTooLarge

section \<open>Reset and LoadROM\<close>

text \<open>\<^verbatim>\<open>memcpy(&memory[FONTSET_ADDR], fontset, FONTSET_SIZE)\<close> and \<^verbatim>\<open>file.read(&memory[START_ADDR], size)\<close>:
  a block of bytes written over the array from an offset on.\<close>

definition write_block :: "u8 list \<Rightarrow> nat \<Rightarrow> u8 list \<Rightarrow> u8 list" where
  "write_block m off bs = take off m @ bs @ drop (off + length bs) m"

definition Reset :: "chip8 \<Rightarrow> chip8" where
  "Reset s =
     s\<lparr>memory := write_block (replicate MEMORY_SIZE 0) FONTSET_ADDR (take FONTSET_SIZE fontset),
       V := replicate 16 0,
       stack := replicate 16 0,
       keypad := replicate 16 0,
       display := replicate (DISPLAY_WIDTH * DISPLAY_HEIGHT) 0,
       pc := of_nat START_ADDR,
       I := 0,
       sp := 0,
       delay_timer := 0,
       sound_timer := 0,
       drawFlag := False\<rparr>"

text \<open>
  \<^verbatim>\<open>LoadROM\<close> reads a file; the model takes the file's content (\<open>None\<close> when the file
  cannot be opened). The function returns nothing and reports on stderr: the model returns
  the report beside the state the machine is left in.
\<close>

definition LoadROM :: "chip8 \<Rightarrow> u8 list option \<Rightarrow> load_error option \<times> chip8" where
  "LoadROM s file =
     (let s1 = Reset s in
      case file of
        None \<Rightarrow> (Some FileNotOpen, s1)
      | Some bytes \<Rightarrow>
          if length bytes > MEMORY_SIZE - START_ADDR then (Some RomTooLarge, s1)
          else (None, s1\<lparr>memory := write_block (memory s1) START_ADDR bytes\<rparr>))"

section \<open>UpdateTimers\<close>

definition UpdateTimers :: "chip8 \<Rightarrow> chip8" where
  "UpdateTimers s =
     (let s1 = (if delay_timer s > 0 then s\<lparr>delay_timer := delay_timer s - 1\<rparr> else s)
      in if sound_timer s1 > 0 then s1\<lparr>sound_timer := sound_timer s1 - 1\<rparr> else s1)"

section \<open>The opcode handlers\<close>

text \<open>
  A register number passed to a handler is a decoded 4-bit field, so \<^verbatim>\<open>V[reg]\<close> is always
  inside the sixteen registers; the handlers take it as a natural number.
\<close>

definition Opcode0xxx :: "u16 \<Rightarrow> chip8 \<Rightarrow> error + chip8" where
  "Opcode0xxx opcode s =
     (if opcode = 0x00E0 then
        Inr (s\<lparr>display := replicate (DISPLAY_WIDTH * DISPLAY_HEIGHT) 0, drawFlag := True\<rparr>)
      else if opcode = 0x00EE then
        (let sp' = sp s - 1 in
         if unat sp' < 16 then Inr (s\<lparr>sp := sp', pc := stack s ! unat sp'\<rparr>)
         else Inl OutOfBounds)
      else Inr s)"

definition Opcode1xxx :: "u16 \<Rightarrow> chip8 \<Rightarrow> chip8" where
  "Opcode1xxx addr s = s\<lparr>pc := addr\<rparr>"

definition Opcode2xxx :: "u16 \<Rightarrow> chip8 \<Rightarrow> error + chip8" where
  "Opcode2xxx addr s =
     (if unat (sp s) < 16 then
        Inr (s\<lparr>stack := (stack s)[unat (sp s) := pc s], sp := sp s + 1, pc := addr\<rparr>)
      else Inl OutOfBounds)"

definition Opcode3xxx :: "nat \<Rightarrow> u8 \<Rightarrow> chip8 \<Rightarrow> chip8" where
  "Opcode3xxx reg val s = (if V s ! reg = val then s\<lparr>pc := pc s + 2\<rparr> else s)"

definition Opcode4xxx :: "nat \<Rightarrow> u8 \<Rightarrow> chip8 \<Rightarrow> chip8" where
  "Opcode4xxx reg val s = (if V s ! reg \<noteq> val then s\<lparr>pc := pc s + 2\<rparr> else s)"

definition Opcode5xxx :: "nat \<Rightarrow> nat \<Rightarrow> chip8 \<Rightarrow> chip8" where
  "Opcode5xxx regX regY s = (if V s ! regX = V s ! regY then s\<lparr>pc := pc s + 2\<rparr> else s)"

definition Opcode6xxx :: "nat \<Rightarrow> u8 \<Rightarrow> chip8 \<Rightarrow> chip8" where
  "Opcode6xxx reg val s = s\<lparr>V := (V s)[reg := val]\<rparr>"

definition Opcode7xxx :: "nat \<Rightarrow> u8 \<Rightarrow> chip8 \<Rightarrow> chip8" where
  "Opcode7xxx reg val s = s\<lparr>V := (V s)[reg := V s ! reg + val]\<rparr>"

definition OpcodeAxxx :: "u16 \<Rightarrow> chip8 \<Rightarrow> chip8" where
  "OpcodeAxxx addr s = s\<lparr>I := addr\<rparr>"

definition OpcodeBxxx :: "u16 \<Rightarrow> chip8 \<Rightarrow> chip8" where
  "OpcodeBxxx addr s = s\<lparr>pc := addr + ucast (V s ! 0)\<rparr>"

text \<open>\<open>r\<close> is the value the call of \<^verbatim>\<open>rand()\<close> returns.\<close>

definition OpcodeCxxx :: "nat \<Rightarrow> nat \<Rightarrow> u8 \<Rightarrow> chip8 \<Rightarrow> chip8" where
  "OpcodeCxxx r reg val s = s\<lparr>V := (V s)[reg := of_nat (r mod 256) AND val]\<rparr>"

text \<open>
  The statements of each case run in the source's order: a flag written to \<^verbatim>\<open>V[0xF]\<close> is
  seen by the reads of the statement after it.
\<close>

definition Opcode8xxx :: "nat \<Rightarrow> nat \<Rightarrow> u16 \<Rightarrow> chip8 \<Rightarrow> chip8" where
  "Opcode8xxx regX regY nib s =
     (let v = V s in
      if nib = 0x0 then s\<lparr>V := v[regX := v ! regY]\<rparr>
      else if nib = 0x1 then s\<lparr>V := v[regX := v ! regX OR v ! regY]\<rparr>
      else if nib = 0x2 then s\<lparr>V := v[regX := v ! regX AND v ! regY]\<rparr>
      else if nib = 0x3 then s\<lparr>V := v[regX := v ! regX XOR v ! regY]\<rparr>
      else if nib = 0x4 then
        (let sum = unat (v ! regX) + unat (v ! regY);
             v1 = v[0xF := (if sum > 0xFF then 1 else 0)]
         in s\<lparr>V := v1[regX := of_nat (sum mod 256)]\<rparr>)
      else if nib = 0x5 then
        (let v1 = v[0xF := (if v ! regX > v ! regY then 1 else 0)]
         in s\<lparr>V := v1[regX := v1 ! regX - v1 ! regY]\<rparr>)
      else if nib = 0x6 then
        (let v1 = v[0xF := v ! regY AND 0x01]
         in s\<lparr>V := v1[regX := drop_bit 1 (v1 ! regY)]\<rparr>)
      else if nib = 0x7 then
        (let v1 = v[0xF := (if v ! regY > v ! regX then 1 else 0)]
         in s\<lparr>V := v1[regX := v1 ! regY - v1 ! regX]\<rparr>)
      else if nib = 0xE then
        (let v1 = v[0xF := drop_bit 7 (v ! regY AND 0x80)]
         in s\<lparr>V := v1[regX := push_bit 1 (v1 ! regY)]\<rparr>)
      else s)"

definition Opcode9xxx :: "nat \<Rightarrow> nat \<Rightarrow> chip8 \<Rightarrow> chip8" where
  "Opcode9xxx regX regY s = (if V s ! regX \<noteq> V s ! regY then s\<lparr>pc := pc s + 2\<rparr> else s)"

subsection \<open>Drawing a sprite\<close>

text \<open>
  The body of the inner loop: one sprite bit at column \<open>col\<close> of row \<open>row\<close>. The loops reach
  it only with \<^verbatim>\<open>y + row < DISPLAY_HEIGHT\<close> and \<^verbatim>\<open>x + col < DISPLAY_WIDTH\<close>, which keep \<^verbatim>\<open>idx\<close>
  inside \<^verbatim>\<open>display\<close>.
\<close>

definition draw_pixel :: "nat \<Rightarrow> nat \<Rightarrow> nat \<Rightarrow> u8 \<Rightarrow> nat \<Rightarrow> chip8 \<Rightarrow> chip8" where
  "draw_pixel x y row sprite_byte col s =
     (let sprite_pixel = drop_bit (7 - col) sprite_byte AND 0x01;
          idx = (y + row) * DISPLAY_WIDTH + (x + col)
      in if sprite_pixel \<noteq> 0 then
           (let s1 = (if display s ! idx = 1 then s\<lparr>V := (V s)[0xF := 1]\<rparr> else s)
            in s1\<lparr>display := (display s1)[idx := display s1 ! idx XOR 1]\<rparr>)
         else s)"

text \<open>The inner loop from column \<open>col\<close> on, and the outer loop from row \<open>row\<close> on, each with its
  \<^verbatim>\<open>break\<close>. The outer loop reads \<^verbatim>\<open>memory[I + row]\<close> after its \<^verbatim>\<open>break\<close> test.\<close>

function draw_cols :: "nat \<Rightarrow> nat \<Rightarrow> nat \<Rightarrow> u8 \<Rightarrow> nat \<Rightarrow> chip8 \<Rightarrow> chip8" where
  "draw_cols x y row sprite_byte col s =
     (if col < 8 then
        if x + col \<ge> DISPLAY_WIDTH then s
        else draw_cols x y row sprite_byte (col + 1) (draw_pixel x y row sprite_byte col s)
      else s)"
  by pat_completeness auto
termination
  by (relation "measure (\<lambda>(x, y, row, sprite_byte, col, s). 8 - col)") auto

function draw_rows :: "nat \<Rightarrow> nat \<Rightarrow> nat \<Rightarrow> nat \<Rightarrow> chip8 \<Rightarrow> error + chip8" where
  "draw_rows x y nib row s =
     (if row < nib then
        if y + row \<ge> DISPLAY_HEIGHT then Inr s
        else if unat (I s) + row < MEMORY_SIZE then
          draw_rows x y nib (row + 1)
            (draw_cols x y row (memory s ! (unat (I s) + row)) 0 s)
        else Inl OutOfBounds
      else Inr s)"
  by pat_completeness auto
termination
  by (relation "measure (\<lambda>(x, y, nib, row, s). nib - row)") auto

definition OpcodeDxxx :: "nat \<Rightarrow> nat \<Rightarrow> nat \<Rightarrow> chip8 \<Rightarrow> error + chip8" where
  "OpcodeDxxx regX regY nib s =
     (let x = unat (V s ! regX) mod DISPLAY_WIDTH;
          y = unat (V s ! regY) mod DISPLAY_HEIGHT;
          s1 = s\<lparr>V := (V s)[0xF := 0]\<rparr>
      in case draw_rows x y nib 0 s1 of
           Inl e \<Rightarrow> Inl e
         | Inr s2 \<Rightarrow> Inr (s2\<lparr>drawFlag := True\<rparr>))"

subsection \<open>Keys\<close>

text \<open>A read of \<^verbatim>\<open>keypad[k]\<close> taken as a condition. In \<^verbatim>\<open>keypad[V[reg]]\<close> the subscript is the whole
  byte of the register.\<close>

definition keypad_at :: "u8 list \<Rightarrow> nat \<Rightarrow> error + bool" where
  "keypad_at keys k = (if k < 16 then Inr (keys ! k \<noteq> 0) else Inl OutOfBounds)"

definition OpcodeExxx :: "nat \<Rightarrow> u16 \<Rightarrow> chip8 \<Rightarrow> error + chip8" where
  "OpcodeExxx reg nib s =
     (if nib = 0x9E then
        (case keypad_at (keypad s) (unat (V s ! reg)) of
           Inl e \<Rightarrow> Inl e
         | Inr pressed \<Rightarrow> Inr (if pressed then s\<lparr>pc := pc s + 2\<rparr> else s))
      else if nib = 0xA1 then
        (case keypad_at (keypad s) (unat (V s ! reg)) of
           Inl e \<Rightarrow> Inl e
         | Inr pressed \<Rightarrow> Inr (if \<not> pressed then s\<lparr>pc := pc s + 2\<rparr> else s))
      else Inr s)"

text \<open>The scan loop of opcode \<^verbatim>\<open>Fx0A\<close> over the \<^verbatim>\<open>keypad\<close> array, from index \<open>i\<close> on: the first
  index below 16 whose entry is not zero, \<open>None\<close> when the loop ends without one.\<close>

function key_scan :: "u8 list \<Rightarrow> nat \<Rightarrow> error + nat option" where
  "key_scan keys i =
     (if i < 16 then
        (case keypad_at keys i of
           Inl e \<Rightarrow> Inl e
         | Inr pressed \<Rightarrow> if pressed then Inr (Some i) else key_scan keys (i + 1))
      else Inr None)"
  by pat_completeness auto
termination
  by (relation "measure (\<lambda>(keys, i). 16 - i)") auto

subsection \<open>Memory writes and the register block\<close>

text \<open>
  \<open>mem_write a b\<close> is the assignment \<^verbatim>\<open>memory[a] = b\<close>. \<open>store_regs reg i\<close> and \<open>load_regs reg i\<close>
  are the loops of \<^verbatim>\<open>Fx55\<close> and \<^verbatim>\<open>Fx65\<close> from index \<open>i\<close> on, up to \<open>reg\<close> inclusive; the subscript
  \<^verbatim>\<open>I + i\<close> is computed in \<^verbatim>\<open>int\<close>, so it does not wrap.
\<close>

definition mem_write :: "nat \<Rightarrow> u8 \<Rightarrow> chip8 \<Rightarrow> error + chip8" where
  "mem_write a b s =
     (if a < MEMORY_SIZE then Inr (s\<lparr>memory := (memory s)[a := b]\<rparr>) else Inl OutOfBounds)"

function store_regs :: "nat \<Rightarrow> nat \<Rightarrow> chip8 \<Rightarrow> error + chip8" where
  "store_regs reg i s =
     (if i \<le> reg then
        (case mem_write (unat (I s) + i) (V s ! i) s of
           Inl e \<Rightarrow> Inl e
         | Inr s1 \<Rightarrow> store_regs reg (i + 1) s1)
      else Inr s)"
  by pat_completeness auto
termination
  by (relation "measure (\<lambda>(reg, i, s). Suc reg - i)") auto

function load_regs :: "nat \<Rightarrow> nat \<Rightarrow> chip8 \<Rightarrow> error + chip8" where
  "load_regs reg i s =
     (if i \<le> reg then
        (if unat (I s) + i < MEMORY_SIZE then
           load_regs reg (i + 1) (s\<lparr>V := (V s)[i := memory s ! (unat (I s) + i)]\<rparr>)
         else Inl OutOfBounds)
      else Inr s)"
  by pat_completeness auto
termination
  by (relation "measure (\<lambda>(reg, i, s). Suc reg - i)") auto

definition OpcodeFxxx :: "nat \<Rightarrow> u16 \<Rightarrow> chip8 \<Rightarrow> error + chip8" where
  "OpcodeFxxx reg nib s =
     (if nib = 0x07 then Inr (s\<lparr>V := (V s)[reg := delay_timer s]\<rparr>)
      else if nib = 0x0A then
        (case key_scan (keypad s) 0 of
           Inl e \<Rightarrow> Inl e
         | Inr (Some i) \<Rightarrow> Inr (s\<lparr>V := (V s)[reg := of_nat i]\<rparr>)
         | Inr None \<Rightarrow> Inr (s\<lparr>pc := pc s - 2\<rparr>))
      else if nib = 0x15 then Inr (s\<lparr>delay_timer := V s ! reg\<rparr>)
      else if nib = 0x18 then Inr (s\<lparr>sound_timer := V s ! reg\<rparr>)
      else if nib = 0x1E then Inr (s\<lparr>I := I s + ucast (V s ! reg)\<rparr>)
      else if nib = 0x29 then Inr (s\<lparr>I := of_nat (FONTSET_ADDR + unat (V s ! reg) * 5)\<rparr>)
      else if nib = 0x33 then
        (case mem_write (unat (I s)) (V s ! reg div 100) s of
           Inl e \<Rightarrow> Inl e
         | Inr s1 \<Rightarrow>
             (case mem_write (unat (I s1) + 1) ((V s1 ! reg div 10) mod 10) s1 of
                Inl e \<Rightarrow> Inl e
              | Inr s2 \<Rightarrow> mem_write (unat (I s2) + 2) (V s2 ! reg mod 10) s2))
      else if nib = 0x55 then store_regs reg 0 s
      else if nib = 0x65 then load_regs reg 0 s
      else Inr s)"

section \<open>Cycle: fetch, decode, dispatch\<close>

text \<open>The first statement of \<^verbatim>\<open>Cycle\<close>: the two bytes at \<^verbatim>\<open>pc\<close> and \<^verbatim>\<open>pc + 1\<close>, big-endian.\<close>

definition fetch :: "chip8 \<Rightarrow> error + u16" where
  "fetch s =
     (if unat (pc s) < MEMORY_SIZE \<and> unat (pc s) + 1 < MEMORY_SIZE then
        Inr (push_bit 8 (ucast (memory s ! unat (pc s))) OR ucast (memory s ! (unat (pc s) + 1)))
      else Inl OutOfBounds)"

definition nib1 :: "u16 \<Rightarrow> u16" where "nib1 opcode = drop_bit 12 (opcode AND 0xF000)"
definition regX :: "u16 \<Rightarrow> u16" where "regX opcode = drop_bit 8 (opcode AND 0x0F00)"
definition regY :: "u16 \<Rightarrow> u16" where "regY opcode = drop_bit 4 (opcode AND 0x00F0)"
definition nib4 :: "u16 \<Rightarrow> u16" where "nib4 opcode = opcode AND 0x000F"
definition addr :: "u16 \<Rightarrow> u16" where "addr opcode = opcode AND 0x0FFF"
definition val :: "u16 \<Rightarrow> u8" where "val opcode = ucast (opcode AND 0x00FF)"

text \<open>The \<^verbatim>\<open>switch (nib1)\<close> of \<^verbatim>\<open>Cycle\<close>, run on the state whose \<^verbatim>\<open>pc\<close> is already advanced.\<close>

definition dispatch :: "nat \<Rightarrow> u16 \<Rightarrow> chip8 \<Rightarrow> error + chip8" where
  "dispatch r opcode s =
     (let n = nib1 opcode; x = unat (regX opcode); y = unat (regY opcode) in
      if n = 0x0 then Opcode0xxx opcode s
      else if n = 0x1 then Inr (Opcode1xxx (addr opcode) s)
      else if n = 0x2 then Opcode2xxx (addr opcode) s
      else if n = 0x3 then Inr (Opcode3xxx x (val opcode) s)
      else if n = 0x4 then Inr (Opcode4xxx x (val opcode) s)
      else if n = 0x5 then Inr (Opcode5xxx x y s)
      else if n = 0x6 then Inr (Opcode6xxx x (val opcode) s)
      else if n = 0x7 then Inr (Opcode7xxx x (val opcode) s)
      else if n = 0x8 then Inr (Opcode8xxx x y (nib4 opcode) s)
      else if n = 0x9 then Inr (Opcode9xxx x y s)
      else if n = 0xA then Inr (OpcodeAxxx (addr opcode) s)
      else if n = 0xB then Inr (OpcodeBxxx (addr opcode) s)
      else if n = 0xC then Inr (OpcodeCxxx r x (val opcode) s)
      else if n = 0xD then OpcodeDxxx x y (unat (nib4 opcode)) s
      else if n = 0xE then OpcodeExxx x (ucast (val opcode)) s
      else if n = 0xF then OpcodeFxxx x (ucast (val opcode)) s
      else Inr s)"

definition Cycle :: "nat \<Rightarrow> chip8 \<Rightarrow> error + chip8" where
  "Cycle r s =
     (case fetch s of
        Inl e \<Rightarrow> Inl e
      | Inr opcode \<Rightarrow> dispatch r opcode (s\<lparr>pc := pc s + 2\<rparr>))"

section \<open>The constructor, the key input and the driver loop\<close>

text \<open>
  The constructor: the member initialisers, then \<^verbatim>\<open>Reset()\<close>. The arrays hold nothing
  defined before \<^verbatim>\<open>Reset\<close> overwrites every one of them; the model starts them zeroed.
\<close>

definition Chip8 :: chip8 where
  "Chip8 =
     Reset \<lparr>memory = replicate MEMORY_SIZE 0, V = replicate 16 0, I = 0,
       pc = of_nat START_ADDR, sp = 0, stack = replicate 16 0, delay_timer = 0,
       sound_timer = 0, keypad = replicate 16 0,
       display = replicate (DISPLAY_WIDTH * DISPLAY_HEIGHT) 0, drawFlag = False\<rparr>"

text \<open>\<^verbatim>\<open>SetKey\<close> is called by the event loop with the sixteen key numbers only.\<close>

definition SetKey :: "nat \<Rightarrow> bool \<Rightarrow> chip8 \<Rightarrow> chip8" where
  "SetKey key pressed s = s\<lparr>keypad := (keypad s)[key := (if pressed then 1 else 0)]\<rparr>"

text \<open>The inner loop of \<^verbatim>\<open>main\<close>: one \<^verbatim>\<open>Cycle\<close> after another (the list gives the \<^verbatim>\<open>rand()\<close> value of
  each), stopping at the first that fails.\<close>

fun Cycles :: "nat list \<Rightarrow> chip8 \<Rightarrow> error + chip8" where
  "Cycles [] s = Inr s"
| "Cycles (r # rs) s = (case Cycle r s of Inl e \<Rightarrow> Inl e | Inr s' \<Rightarrow> Cycles rs s')"

declare draw_cols.simps [simp del] draw_rows.simps [simp del] key_scan.simps [simp del]
  store_regs.simps [simp del] load_regs.simps [simp del]

section \<open>The vocabulary of the statements\<close>

text \<open>
  The instruction encodings of the specification's opcode table, in the fields of the
  decoder: \<^verbatim>\<open>00E0\<close>, \<^verbatim>\<open>00EE\<close>, \<^verbatim>\<open>1NNN\<close>, \<^verbatim>\<open>2NNN\<close>, \<^verbatim>\<open>3XNN\<close>, \<^verbatim>\<open>4XNN\<close>, \<^verbatim>\<open>5XY0\<close>, \<^verbatim>\<open>6XNN\<close>, \<^verbatim>\<open>7XNN\<close>,
  \<^verbatim>\<open>8XY0\<close> to \<^verbatim>\<open>8XY7\<close>, \<^verbatim>\<open>8XYE\<close>, \<^verbatim>\<open>9XY0\<close>, \<^verbatim>\<open>ANNN\<close>, \<^verbatim>\<open>BNNN\<close>, \<^verbatim>\<open>CXNN\<close>, \<^verbatim>\<open>DXYN\<close>, \<^verbatim>\<open>EX9E\<close>, \<^verbatim>\<open>EXA1\<close>
  and \<^verbatim>\<open>FX07\<close>, \<^verbatim>\<open>FX0A\<close>, \<^verbatim>\<open>FX15\<close>, \<^verbatim>\<open>FX18\<close>, \<^verbatim>\<open>FX1E\<close>, \<^verbatim>\<open>FX29\<close>, \<^verbatim>\<open>FX33\<close>, \<^verbatim>\<open>FX55\<close>, \<^verbatim>\<open>FX65\<close>.
  This set is the specification's, not the code's: it is what the statements about
  unrecognized encodings range over.
\<close>

definition recognized :: "u16 \<Rightarrow> bool" where
  "recognized w \<longleftrightarrow>
     w = 0x00E0 \<or> w = 0x00EE \<or>
     nib1 w \<in> {0x1, 0x2, 0x3, 0x4, 0x6, 0x7, 0xA, 0xB, 0xC, 0xD} \<or>
     (nib1 w = 0x5 \<and> nib4 w = 0x0) \<or>
     (nib1 w = 0x8 \<and> nib4 w \<in> {0x0, 0x1, 0x2, 0x3, 0x4, 0x5, 0x6, 0x7, 0xE}) \<or>
     (nib1 w = 0x9 \<and> nib4 w = 0x0) \<or>
     (nib1 w = 0xE \<and> val w \<in> {0x9E, 0xA1}) \<or>
     (nib1 w = 0xF \<and> val w \<in> {0x07, 0x0A, 0x15, 0x18, 0x1E, 0x29, 0x33, 0x55, 0x65})"

text \<open>
  The vocabulary of the statements about drawing. \<open>sprite_bit b c\<close> is the source's
  \<^verbatim>\<open>(sprite_byte >> (7 - col)) & 0x01\<close> taken as a condition. \<open>sprite_on s x y n cx cy\<close> says
  that the sprite of \<open>n\<close> rows read from \<^verbatim>\<open>memory[I]\<close> on, placed with its top left corner at
  \<open>(x, y)\<close>, has a set bit over the cell of column \<open>cx\<close> and row \<open>cy\<close>. \<open>collision\<close> says that
  some cell of the 64 by 32 grid under a set bit of the sprite holds 1.
\<close>

definition sprite_bit :: "u8 \<Rightarrow> nat \<Rightarrow> bool" where
  "sprite_bit b c \<longleftrightarrow> drop_bit (7 - c) b AND 0x01 \<noteq> 0"

definition sprite_on :: "chip8 \<Rightarrow> nat \<Rightarrow> nat \<Rightarrow> nat \<Rightarrow> nat \<Rightarrow> nat \<Rightarrow> bool" where
  "sprite_on s x y n cx cy \<longleftrightarrow>
     y \<le> cy \<and> cy < y + n \<and> x \<le> cx \<and> cx < x + 8 \<and>
     sprite_bit (memory s ! (unat (I s) + (cy - y))) (cx - x)"

definition collision :: "chip8 \<Rightarrow> nat \<Rightarrow> nat \<Rightarrow> nat \<Rightarrow> bool" where
  "collision s x y n \<longleftrightarrow>
     list_ex (\<lambda>cy. list_ex (\<lambda>cx. sprite_on s x y n cx cy \<and>
                                  display s ! (cy * DISPLAY_WIDTH + cx) = 1)
                         [0..<DISPLAY_WIDTH])
             [0..<DISPLAY_HEIGHT]"

section \<open>Example machines\<close>

text \<open>The machine after the constructor with the two bytes of one instruction at \<open>0x200\<close>.\<close>

definition one_instr :: "u8 \<Rightarrow> u8 \<Rightarrow> chip8" where
  "one_instr hi lo = Chip8\<lparr>memory := (memory Chip8)[0x200 := hi, 0x201 := lo]\<rparr>"

text \<open>A machine about to run \<^verbatim>\<open>8014\<close> with \<^verbatim>\<open>V[0] = 0xFF\<close> and \<^verbatim>\<open>V[1] = 0x01\<close>.\<close>

definition add_example :: chip8 where
  "add_example = Chip8\<lparr>memory := (memory Chip8)[0x200 := 0x80, 0x201 := 0x14],
                       V := (V Chip8)[0 := 0xFF, 1 := 0x01]\<rparr>"

text \<open>A machine about to run \<^verbatim>\<open>F30A\<close>, no key down.\<close>

definition wait_example :: chip8 where
  "wait_example = Chip8\<lparr>memory := (memory Chip8)[0x200 := 0xF3, 0x201 := 0x0A]\<rparr>"

text \<open>A machine about to run \<^verbatim>\<open>F01E\<close> at \<open>0xFFE\<close>, the last instruction slot of the memory, with
  \<^verbatim>\<open>I = 0xFFF\<close> and \<^verbatim>\<open>V[0] = 1\<close>.\<close>

definition wrap_example :: chip8 where
  "wrap_example = Chip8\<lparr>memory := (memory Chip8)[0xFFE := 0xF0, 0xFFF := 0x1E],
                        V := (V Chip8)[0 := 0x01], I := 0xFFF, pc := 0xFFE\<rparr>"

text \<open>A machine about to run \<^verbatim>\<open>E09E\<close> with \<^verbatim>\<open>V[0] = 0x10\<close>, one more than the highest key number.\<close>

definition key_example :: chip8 where
  "key_example = (one_instr 0xE0 0x9E)\<lparr>V := (V Chip8)[0 := 0x10]\<rparr>"

text \<open>A machine with \<^verbatim>\<open>V[0..3] = 0x11, 0x22, 0x33, 0x44\<close> and \<^verbatim>\<open>I = 0x300\<close>.\<close>

definition regs_example :: chip8 where
  "regs_example = Chip8\<lparr>V := (V Chip8)[0 := 0x11, 1 := 0x22, 2 := 0x33, 3 := 0x44], I := 0x300\<rparr>"

text \<open>
  A machine about to run \<^verbatim>\<open>D012\<close> twice, with \<^verbatim>\<open>V[0] = 60\<close>, \<^verbatim>\<open>V[1] = 0\<close> and \<^verbatim>\<open>I\<close> at two bytes
  \<open>0xFF\<close>: a fully set sprite of 8 by 2 at the origin \<open>(60, 0)\<close> on a clear screen.
\<close>

definition draw_example :: chip8 where
  "draw_example =
     Chip8\<lparr>memory := (memory Chip8)[0x200 := 0xD0, 0x201 := 0x12, 0x202 := 0xD0, 0x203 := 0x12,
                                   0x300 := 0xFF, 0x301 := 0xFF],
           V := (V Chip8)[0 := 60, 1 := 0], I := 0x300\<rparr>"

text \<open>Machines whose \<^verbatim>\<open>I\<close> is too high for the next instruction: a draw of two rows from \<open>0xFFF\<close>,
  and a store of \<^verbatim>\<open>V[0]\<close> at \<open>0x1000\<close>.\<close>

definition draw_oob :: chip8 where
  "draw_oob = (one_instr 0xD0 0x02)\<lparr>I := 0xFFF\<rparr>"

definition store_oob :: chip8 where
  "store_oob = (one_instr 0xF0 0x55)\<lparr>I := 0x1000\<rparr>"

section \<open>Properties of Reset, LoadROM and UpdateTimers\<close>

lemma wf_Reset: "wf (Reset s)"
  by (simp add: wf_def Reset_def write_block_def MEMORY_SIZE_def FONTSET_ADDR_def
      FONTSET_SIZE_def fontset_def)

text \<open>
  Claim C3. \<^verbatim>\<open>LoadROM\<close> resets the machine first. An image of more than 3584 bytes is
  refused with \<open>RomTooLarge\<close> and the machine is left exactly in the state \<^verbatim>\<open>Reset\<close>
  produces: nothing of the image is copied. An image of at most 3584 bytes is accepted;
  the state then differs from the reset state in \<open>memory\<close> only, the 512 bytes below
  \<open>0x200\<close> are those of the reset state, the bytes from \<open>0x200\<close> on are the image, and the
  bytes behind the image are those of the reset state.
\<close>

theorem LoadROM_spec:
  "(length img > 3584 \<longrightarrow> LoadROM s (Some img) = (Some RomTooLarge, Reset s)) \<and>
   (length img \<le> 3584 \<longrightarrow>
      (\<exists>s'. LoadROM s (Some img) = (None, s') \<and>
            s' = (Reset s)\<lparr>memory := memory s'\<rparr> \<and>
            length (memory s') = 4096 \<and>
            take 0x200 (memory s') = take 0x200 (memory (Reset s)) \<and>
            take (length img) (drop 0x200 (memory s')) = img \<and>
            drop (0x200 + length img) (memory s') =
              drop (0x200 + length img) (memory (Reset s))))"
  using wf_Reset [of s]
  by (auto simp add: LoadROM_def Let_def MEMORY_SIZE_def START_ADDR_def write_block_def wf_def)

theorem LoadROM_spec_witness:
  "length (replicate 3585 (0xAA :: u8)) > 3584 \<and>
   LoadROM Chip8 (Some (replicate 3585 0xAA)) = (Some RomTooLarge, Reset Chip8) \<and>
   length [0x12, 0x34 :: u8] \<le> 3584 \<and>
   fst (LoadROM Chip8 (Some [0x12, 0x34])) = None \<and>
   take 2 (drop 0x200 (memory (snd (LoadROM Chip8 (Some [0x12, 0x34]))))) = [0x12, 0x34]"
  using LoadROM_spec [of "replicate 3585 0xAA" Chip8] LoadROM_spec [of "[0x12, 0x34]" Chip8]
  by (auto simp add: numeral_2_eq_2)

text \<open>
  Claim C7. One call of \<^verbatim>\<open>UpdateTimers\<close> takes exactly 1 off the delay timer when it is
  not zero and leaves it at 0 when it is; the same, independently, for the sound timer.
  No timer goes below 0, and no other part of the state changes.
\<close>

theorem UpdateTimers_spec:
  "unat (delay_timer (UpdateTimers s)) =
     (if delay_timer s = 0 then 0 else unat (delay_timer s) - 1) \<and>
   unat (sound_timer (UpdateTimers s)) =
     (if sound_timer s = 0 then 0 else unat (sound_timer s) - 1) \<and>
   UpdateTimers s = s\<lparr>delay_timer := delay_timer (UpdateTimers s),
                       sound_timer := sound_timer (UpdateTimers s)\<rparr>"
  by (simp add: UpdateTimers_def Let_def word_greater_zero_iff unat_minus_one)

section \<open>Decoding and the fetched instruction\<close>

lemma length_fontset: "length fontset = 80"
  by (simp add: fontset_def)

lemma Chip8_eq:
  "Chip8 = \<lparr>memory = fontset @ replicate 4016 0, V = replicate 16 0, I = 0,
       pc = 0x200, sp = 0, stack = replicate 16 0, delay_timer = 0,
       sound_timer = 0, keypad = replicate 16 0,
       display = replicate 2048 0, drawFlag = False\<rparr>"
  by (simp add: Chip8_def Reset_def write_block_def MEMORY_SIZE_def START_ADDR_def
      FONTSET_ADDR_def FONTSET_SIZE_def DISPLAY_WIDTH_def DISPLAY_HEIGHT_def length_fontset)

lemma and_15_lt: "unat ((v :: u16) AND 0xF) < 16"
proof -
  have "unat (v AND 0xF) \<le> unat (0xF :: u16)"
    by (rule word_and_le1 [THEN word_le_nat_alt [THEN iffD1]])
  then show ?thesis by simp
qed

lemma regX_lt: "unat (regX w) < 16"
  using and_15_lt [of "drop_bit 8 w"] by (simp add: regX_def)

lemma regY_lt: "unat (regY w) < 16"
  using and_15_lt [of "drop_bit 4 w"] by (simp add: regY_def)

lemma nib4_lt: "unat (nib4 w) < 16"
  using and_15_lt [of w] by (simp add: nib4_def)

lemma nib1_lt: "unat (nib1 w) < 16"
  using and_15_lt [of "drop_bit 12 w"] by (simp add: nib1_def)

lemma Cycle_dispatch:
  "fetch s = Inr w \<Longrightarrow> Cycle r s = dispatch r w (s\<lparr>pc := pc s + 2\<rparr>)"
  by (simp add: Cycle_def)

section \<open>Arithmetic with carry\<close>

text \<open>
  Claim C6. Let the instruction at \<^verbatim>\<open>pc\<close> be \<^verbatim>\<open>8XY4\<close>. One cycle writes the carry, 1 if
  \<^verbatim>\<open>V[X] + V[Y]\<close> is above 255 and 0 otherwise, to \<^verbatim>\<open>V[0xF]\<close> and then the sum modulo 256 to
  \<^verbatim>\<open>V[X]\<close>, both computed from the registers before the instruction; \<^verbatim>\<open>pc\<close> advances by 2 and
  nothing else changes. So \<^verbatim>\<open>V[X]\<close> ends as the sum modulo 256, and \<^verbatim>\<open>V[0xF]\<close> ends as the
  carry whenever \<open>X\<close> is not \<open>0xF\<close> itself (for \<open>X = 0xF\<close> the second write lands on the
  flag register).
\<close>

theorem add_carry:
  assumes "wf s" and "fetch s = Inr w" and "nib1 w = 0x8" and "nib4 w = 0x4"
  shows "\<exists>s'. Cycle r s = Inr s' \<and>
     s' = s\<lparr>pc := pc s + 2,
            V := (V s)[0xF := (if unat (V s ! unat (regX w)) + unat (V s ! unat (regY w)) > 255
                              then 1 else 0),
                      unat (regX w) :=
                        of_nat ((unat (V s ! unat (regX w)) + unat (V s ! unat (regY w))) mod 256)]\<rparr> \<and>
     unat (V s' ! unat (regX w)) =
        (unat (V s ! unat (regX w)) + unat (V s ! unat (regY w))) mod 256 \<and>
     (unat (regX w) \<noteq> 0xF \<longrightarrow>
        V s' ! 0xF = (if unat (V s ! unat (regX w)) + unat (V s ! unat (regY w)) > 255
                      then 1 else 0))"
  using assms regX_lt [of w]
  by (simp add: Cycle_dispatch dispatch_def Opcode8xxx_def Let_def wf_def unat_of_nat)

theorem add_carry_witness:
  "wf add_example \<and> fetch add_example = Inr 0x8014 \<and> nib1 0x8014 = 0x8 \<and> nib4 0x8014 = 0x4 \<and>
   unat (regX 0x8014) = 0 \<and> unat (regY 0x8014) = 1 \<and>
   V add_example ! 0 = 0xFF \<and> V add_example ! 1 = 0x01 \<and>
   (\<exists>s'. Cycle 0 add_example = Inr s' \<and> V s' ! 0 = 0x00 \<and> V s' ! 0xF = 1 \<and> pc s' = 0x202)"
proof -
  have h1: "wf add_example"
    by (simp add: add_example_def wf_def Chip8_eq MEMORY_SIZE_def DISPLAY_WIDTH_def
        DISPLAY_HEIGHT_def length_fontset)
  have h2: "fetch add_example = Inr 0x8014"
    by (simp add: add_example_def fetch_def Chip8_eq MEMORY_SIZE_def length_fontset nth_append)
  have h3: "nib1 0x8014 = 0x8" by (simp add: nib1_def)
  have h4: "nib4 0x8014 = 0x4" by (simp add: nib4_def)
  have x: "unat (regX 0x8014) = 0" by (simp add: regX_def)
  have y: "unat (regY 0x8014) = 1" by (simp add: regY_def)
  show ?thesis
    using add_carry [OF h1 h2 h3 h4, of 0] h1 h2 h3 h4
    by (auto simp add: x y add_example_def Chip8_eq)
qed

section \<open>The blocking key wait\<close>

lemma key_scan_none: "\<forall>k<16. i \<le> k \<longrightarrow> keys ! k = 0 \<Longrightarrow> key_scan keys i = Inr None"
proof (induction "16 - i" arbitrary: i)
  case 0
  then show ?case by (subst key_scan.simps) simp
next
  case (Suc n)
  then have "i < 16" and "keys ! i = 0" by simp_all
  moreover have "key_scan keys (i + 1) = Inr None"
    using Suc by (intro Suc.hyps) auto
  ultimately show ?case by (subst key_scan.simps) (simp add: keypad_at_def)
qed

lemma key_scan_first:
  "i \<le> k \<Longrightarrow> k < 16 \<Longrightarrow> keys ! k \<noteq> 0 \<Longrightarrow> \<forall>j<k. i \<le> j \<longrightarrow> keys ! j = 0 \<Longrightarrow>
   key_scan keys i = Inr (Some k)"
proof (induction "k - i" arbitrary: i)
  case 0
  then have "i = k" by simp
  with 0 show ?case by (subst key_scan.simps) (simp add: keypad_at_def)
next
  case (Suc n)
  then have "i < k" and "i < 16" and "keys ! i = 0" by simp_all
  moreover have "key_scan keys (i + 1) = Inr (Some k)"
    using Suc by (intro Suc.hyps) auto
  ultimately show ?case by (subst key_scan.simps) (simp add: keypad_at_def)
qed

lemma key_scan_in_bounds: "key_scan keys i \<noteq> Inl e"
proof (induction "16 - i" arbitrary: i)
  case 0
  then show ?case by (subst key_scan.simps) simp
next
  case (Suc n)
  then have "i < 16" by simp
  moreover have "key_scan keys (i + 1) \<noteq> Inl e"
    using Suc by (intro Suc.hyps) auto
  ultimately show ?case by (subst key_scan.simps) (simp add: keypad_at_def)
qed

lemma wait_fixed:
  assumes "fetch s = Inr w" and "nib1 w = 0xF" and "val w = 0x0A"
    and "\<forall>k<16. keypad s ! k = 0"
  shows "Cycle r s = Inr s"
proof -
  have "key_scan (keypad s) 0 = Inr None" using assms(4) by (intro key_scan_none) simp
  then show ?thesis using assms(1-3)
    by (simp add: Cycle_dispatch dispatch_def OpcodeFxxx_def)
qed

lemma wait_fixed_Cycles:
  assumes "fetch s = Inr w" and "nib1 w = 0xF" and "val w = 0x0A"
    and "\<forall>k<16. keypad s ! k = 0"
  shows "Cycles rs s = Inr s"
  using wait_fixed [OF assms] by (induction rs) simp_all

lemma wait_key:
  assumes "fetch s = Inr w" and "nib1 w = 0xF" and "val w = 0x0A"
    and "k < 16" and "keypad s ! k \<noteq> 0" and "\<forall>j<k. keypad s ! j = 0"
  shows "Cycle r s = Inr (s\<lparr>pc := pc s + 2, V := (V s)[unat (regX w) := of_nat k]\<rparr>)"
proof -
  have "key_scan (keypad s) 0 = Inr (Some k)" using assms(4-6) by (intro key_scan_first) simp_all
  then show ?thesis using assms(1-3)
    by (simp add: Cycle_dispatch dispatch_def OpcodeFxxx_def)
qed

text \<open>
  Claim C5. Let the instruction at \<^verbatim>\<open>pc\<close> be \<^verbatim>\<open>FX0A\<close>. While all sixteen keypad entries are
  zero, the state is a fixed point of \<^verbatim>\<open>Cycle\<close>, and so of any number of cycles in a row:
  \<^verbatim>\<open>pc\<close> stays on the instruction. When some entry is not zero and \<open>k\<close> is the lowest such
  index, one cycle writes \<open>k\<close> to \<^verbatim>\<open>V[X]\<close>, leaves \<^verbatim>\<open>pc\<close> exactly 2 behind the instruction and
  changes nothing else.
\<close>

theorem key_wait:
  assumes "wf s" and "fetch s = Inr w" and "nib1 w = 0xF" and "val w = 0x0A"
  shows "((\<forall>k<16. keypad s ! k = 0) \<longrightarrow> Cycle r s = Inr s \<and> Cycles rs s = Inr s) \<and>
         (\<forall>k<16. keypad s ! k \<noteq> 0 \<and> (\<forall>j<k. keypad s ! j = 0) \<longrightarrow>
            (\<exists>s'. Cycle r s = Inr s' \<and>
                  s' = s\<lparr>pc := pc s + 2, V := (V s)[unat (regX w) := of_nat k]\<rparr> \<and>
                  V s' ! unat (regX w) = of_nat k \<and> pc s' = pc s + 2))"
proof (intro conjI impI allI)
  assume z: "\<forall>k<16. keypad s ! k = 0"
  show "Cycle r s = Inr s" using assms(2-4) z by (rule wait_fixed)
  show "Cycles rs s = Inr s" using assms(2-4) z by (rule wait_fixed_Cycles)
next
  fix k
  assume k: "k < 16" and "keypad s ! k \<noteq> 0 \<and> (\<forall>j<k. keypad s ! j = 0)"
  then have "Cycle r s = Inr (s\<lparr>pc := pc s + 2, V := (V s)[unat (regX w) := of_nat k]\<rparr>)"
    using assms(2-4) by (intro wait_key) simp_all
  then show "\<exists>s'. Cycle r s = Inr s' \<and>
                  s' = s\<lparr>pc := pc s + 2, V := (V s)[unat (regX w) := of_nat k]\<rparr> \<and>
                  V s' ! unat (regX w) = of_nat k \<and> pc s' = pc s + 2"
    using assms(1) regX_lt [of w] by (simp add: wf_def)
qed

theorem key_wait_witness:
  "wf wait_example \<and> fetch wait_example = Inr 0xF30A \<and> nib1 0xF30A = 0xF \<and> val 0xF30A = 0x0A \<and>
   keypad wait_example = replicate 16 0 \<and>
   Cycles [0, 1, 2] wait_example = Inr wait_example \<and>
   fetch (SetKey 9 True (SetKey 5 True wait_example)) = Inr 0xF30A \<and>
   (\<exists>s'. Cycle 0 (SetKey 9 True (SetKey 5 True wait_example)) = Inr s' \<and>
         V s' ! 3 = 5 \<and> pc s' = 0x202)"
proof -
  let ?t = "SetKey 9 True (SetKey 5 True wait_example)"
  have h1: "wf wait_example"
    by (simp add: wait_example_def wf_def Chip8_eq MEMORY_SIZE_def DISPLAY_WIDTH_def
        DISPLAY_HEIGHT_def length_fontset)
  have h2: "fetch wait_example = Inr 0xF30A"
    by (simp add: wait_example_def fetch_def Chip8_eq MEMORY_SIZE_def length_fontset nth_append)
  have h3: "nib1 0xF30A = 0xF" by (simp add: nib1_def)
  have h4: "val 0xF30A = 0x0A" by (simp add: val_def)
  have x: "unat (regX 0xF30A) = 3" by (simp add: regX_def)
  have z: "\<forall>k<16. keypad wait_example ! k = 0"
    by (simp add: wait_example_def Chip8_eq)
  have g1: "wf ?t" using h1 by (simp add: wf_def SetKey_def)
  have "fetch ?t = fetch wait_example" by (simp add: fetch_def SetKey_def)
  with h2 have g2: "fetch ?t = Inr 0xF30A" by simp
  have k5: "keypad ?t ! 5 \<noteq> 0 \<and> (\<forall>j<5. keypad ?t ! j = 0)"
    by (simp add: SetKey_def wait_example_def Chip8_eq)
  have p: "pc ?t = 0x200" by (simp add: SetKey_def wait_example_def Chip8_eq)
  have "\<exists>s'. Cycle 0 ?t = Inr s' \<and>
             s' = ?t\<lparr>pc := pc ?t + 2, V := (V ?t)[unat (regX 0xF30A) := of_nat 5]\<rparr> \<and>
             V s' ! unat (regX 0xF30A) = of_nat 5 \<and> pc s' = pc ?t + 2"
    by (rule key_wait [OF g1 g2 h3 h4, of 0 "[]", THEN conjunct2, rule_format, of 5])
      (use k5 in simp_all)
  then have "\<exists>s'. Cycle 0 ?t = Inr s' \<and> V s' ! 3 = 5 \<and> pc s' = 0x202"
    by (simp add: x p)
  moreover have "keypad wait_example = replicate 16 0"
    by (simp add: wait_example_def Chip8_eq)
  moreover have "Cycles [0, 1, 2] wait_example = Inr wait_example"
    using key_wait [OF h1 h2 h3 h4, of 0 "[0, 1, 2]"] z by blast
  ultimately show ?thesis using h1 h2 h3 h4 g2 by blast
qed

section \<open>Unrecognized encodings\<close>

lemma wf_one_instr: "wf (one_instr hi lo)"
  by (simp add: one_instr_def wf_def Chip8_eq MEMORY_SIZE_def DISPLAY_WIDTH_def
      DISPLAY_HEIGHT_def length_fontset)

lemma fetch_one_instr: "fetch (one_instr hi lo) = Inr (push_bit 8 (ucast hi) OR ucast lo)"
  by (simp add: one_instr_def fetch_def Chip8_eq MEMORY_SIZE_def length_fontset nth_append)

lemma ucast_u8_eq: "(ucast (v :: u8) :: u16) = c \<Longrightarrow> v = ucast c"
proof -
  assume a: "(ucast v :: u16) = c"
  have "ucast (ucast v :: u16) = v" by (simp add: ucast_up_ucast_id is_up)
  with a show ?thesis by simp
qed

lemma ucast_u8_eq_iff: "unat c < 256 \<Longrightarrow> ((ucast (v :: u8) :: u16) = c) = (v = ucast c)"
proof
  assume "(ucast v :: u16) = c" then show "v = ucast c" by (rule ucast_u8_eq)
next
  assume c: "unat c < 256" and "v = ucast c"
  then show "(ucast v :: u16) = c"
    by (simp add: word_unat_eq_iff unsigned_ucast_eq take_bit_eq_mod)
qed

lemma nib1_cases:
  "nib1 w = 0 \<or> nib1 w = 1 \<or> nib1 w = 2 \<or> nib1 w = 3 \<or> nib1 w = 4 \<or> nib1 w = 5 \<or> nib1 w = 6 \<or>
   nib1 w = 7 \<or> nib1 w = 8 \<or> nib1 w = 9 \<or> nib1 w = 10 \<or> nib1 w = 11 \<or> nib1 w = 12 \<or>
   nib1 w = 13 \<or> nib1 w = 14 \<or> nib1 w = 15"
  using nib1_lt [of w] by (simp add: word_unat_eq_iff) arith

lemma dispatch_unrecognized:
  assumes "\<not> recognized w" and "nib1 w \<noteq> 0x5" and "nib1 w \<noteq> 0x9"
  shows "dispatch r w s = Inr s"
proof -
  consider "nib1 w = 0" | "nib1 w = 8" | "nib1 w = 0xE" | "nib1 w = 0xF"
    using nib1_cases [of w] assms by (auto simp add: recognized_def)
  then show ?thesis
  proof cases
    case 1
    with assms(1) show ?thesis
      by (simp add: recognized_def dispatch_def Opcode0xxx_def)
  next
    case 2
    with assms(1) show ?thesis
      by (simp add: recognized_def dispatch_def Opcode8xxx_def)
  next
    case 3
    with assms(1) show ?thesis
      by (simp add: recognized_def dispatch_def OpcodeExxx_def ucast_u8_eq_iff)
  next
    case 4
    with assms(1) show ?thesis
      by (simp add: recognized_def dispatch_def OpcodeFxxx_def ucast_u8_eq_iff)
  qed
qed

text \<open>
  Claim C1, as amended. Let the word at \<^verbatim>\<open>pc\<close> be outside the recognized encodings. If its top
  nibble is neither 5 nor 9, one cycle changes nothing but \<^verbatim>\<open>pc\<close>, which advances by 2. The
  handlers of classes 5 and 9 do not look at the low nibble: a word \<^verbatim>\<open>5XYN\<close> or \<^verbatim>\<open>9XYN\<close> with
  \<open>N\<close> not 0 runs as \<^verbatim>\<open>5XY0\<close> or \<^verbatim>\<open>9XY0\<close>; it too changes nothing but \<^verbatim>\<open>pc\<close>, which advances by 4
  when the comparison of \<^verbatim>\<open>V[X]\<close> and \<^verbatim>\<open>V[Y]\<close> asks for the skip and by 2 when not.
\<close>

theorem unrecognized_step:
  assumes "fetch s = Inr w" and "\<not> recognized w"
  shows "(nib1 w \<noteq> 0x5 \<and> nib1 w \<noteq> 0x9 \<longrightarrow> Cycle r s = Inr (s\<lparr>pc := pc s + 2\<rparr>)) \<and>
         (nib1 w = 0x5 \<longrightarrow>
            Cycle r s = Inr (s\<lparr>pc := (if V s ! unat (regX w) = V s ! unat (regY w)
                                       then pc s + 4 else pc s + 2)\<rparr>)) \<and>
         (nib1 w = 0x9 \<longrightarrow>
            Cycle r s = Inr (s\<lparr>pc := (if V s ! unat (regX w) \<noteq> V s ! unat (regY w)
                                       then pc s + 4 else pc s + 2)\<rparr>))"
proof (intro conjI impI)
  assume "nib1 w \<noteq> 0x5 \<and> nib1 w \<noteq> 0x9"
  with assms show "Cycle r s = Inr (s\<lparr>pc := pc s + 2\<rparr>)"
    by (simp add: Cycle_dispatch dispatch_unrecognized)
next
  assume "nib1 w = 0x5"
  with assms(1) show "Cycle r s = Inr (s\<lparr>pc := (if V s ! unat (regX w) = V s ! unat (regY w)
                                       then pc s + 4 else pc s + 2)\<rparr>)"
    by (simp add: Cycle_dispatch dispatch_def Opcode5xxx_def)
next
  assume "nib1 w = 0x9"
  with assms(1) show "Cycle r s = Inr (s\<lparr>pc := (if V s ! unat (regX w) \<noteq> V s ! unat (regY w)
                                       then pc s + 4 else pc s + 2)\<rparr>)"
    by (simp add: Cycle_dispatch dispatch_def Opcode9xxx_def)
qed

text \<open>
  The claim as first stated fails at \<^verbatim>\<open>5001\<close>: the word is not a recognized encoding, and the
  cycle leaves \<^verbatim>\<open>pc\<close> at \<open>0x204\<close>, 4 behind the instruction, since \<^verbatim>\<open>V[0] == V[0]\<close>.
\<close>

theorem unrecognized_step_counterexample:
  "fetch (one_instr 0x50 0x01) = Inr 0x5001 \<and> \<not> recognized 0x5001 \<and>
   Cycle 0 (one_instr 0x50 0x01) = Inr ((one_instr 0x50 0x01)\<lparr>pc := 0x204\<rparr>) \<and>
   pc (one_instr 0x50 0x01) + 2 = 0x202 \<and>
   Cycle 0 (one_instr 0x50 0x01) \<noteq> Inr ((one_instr 0x50 0x01)\<lparr>pc := pc (one_instr 0x50 0x01) + 2\<rparr>)"
proof -
  have f: "fetch (one_instr 0x50 0x01) = Inr 0x5001" by (simp add: fetch_one_instr)
  have n: "\<not> recognized 0x5001" by (simp add: recognized_def nib1_def nib4_def val_def)
  have p: "pc (one_instr 0x50 0x01) = 0x200" by (simp add: one_instr_def Chip8_eq)
  have c: "Cycle 0 (one_instr 0x50 0x01) = Inr ((one_instr 0x50 0x01)\<lparr>pc := 0x204\<rparr>)"
    by (simp add: Cycle_dispatch [OF f] dispatch_def Opcode5xxx_def nib1_def regX_def regY_def p)
  have "(one_instr 0x50 0x01)\<lparr>pc := 0x204\<rparr> \<noteq> (one_instr 0x50 0x01)\<lparr>pc := 0x202\<rparr>"
  proof
    assume "(one_instr 0x50 0x01)\<lparr>pc := 0x204\<rparr> = (one_instr 0x50 0x01)\<lparr>pc := 0x202\<rparr>"
    then have "pc ((one_instr 0x50 0x01)\<lparr>pc := 0x204\<rparr>) = pc ((one_instr 0x50 0x01)\<lparr>pc := 0x202\<rparr>)"
      by (rule arg_cong)
    then show False by simp
  qed
  with f n c p show ?thesis by simp
qed

theorem unrecognized_step_witness:
  "fetch (one_instr 0x80 0x08) = Inr 0x8008 \<and> \<not> recognized 0x8008 \<and>
   nib1 0x8008 \<noteq> 0x5 \<and> nib1 0x8008 \<noteq> 0x9 \<and>
   Cycle 0 (one_instr 0x80 0x08) = Inr ((one_instr 0x80 0x08)\<lparr>pc := 0x202\<rparr>) \<and>
   fetch (one_instr 0x50 0x01) = Inr 0x5001 \<and> \<not> recognized 0x5001 \<and> nib1 0x5001 = 0x5 \<and>
   Cycle 0 (one_instr 0x50 0x01) = Inr ((one_instr 0x50 0x01)\<lparr>pc := 0x204\<rparr>) \<and>
   fetch (one_instr 0x90 0x03) = Inr 0x9003 \<and> \<not> recognized 0x9003 \<and> nib1 0x9003 = 0x9 \<and>
   Cycle 0 (one_instr 0x90 0x03) = Inr ((one_instr 0x90 0x03)\<lparr>pc := 0x202\<rparr>)"
proof -
  have p: "pc (one_instr hi lo) = 0x200" for hi lo by (simp add: one_instr_def Chip8_eq)
  have f1: "fetch (one_instr 0x80 0x08) = Inr 0x8008" by (simp add: fetch_one_instr)
  have n1: "\<not> recognized 0x8008" by (simp add: recognized_def nib1_def nib4_def val_def)
  have k1: "nib1 0x8008 \<noteq> 0x5 \<and> nib1 0x8008 \<noteq> 0x9" by (simp add: nib1_def)
  have f2: "fetch (one_instr 0x50 0x01) = Inr 0x5001" by (simp add: fetch_one_instr)
  have n2: "\<not> recognized 0x5001" by (simp add: recognized_def nib1_def nib4_def val_def)
  have k2: "nib1 0x5001 = 0x5" by (simp add: nib1_def)
  have f3: "fetch (one_instr 0x90 0x03) = Inr 0x9003" by (simp add: fetch_one_instr)
  have n3: "\<not> recognized 0x9003" by (simp add: recognized_def nib1_def nib4_def val_def)
  have k3: "nib1 0x9003 = 0x9" by (simp add: nib1_def)
  have c1: "Cycle 0 (one_instr 0x80 0x08) = Inr ((one_instr 0x80 0x08)\<lparr>pc := 0x202\<rparr>)"
    using unrecognized_step [OF f1 n1, of 0] k1 by (simp add: p)
  have c2: "Cycle 0 (one_instr 0x50 0x01) = Inr ((one_instr 0x50 0x01)\<lparr>pc := 0x204\<rparr>)"
    using unrecognized_step [OF f2 n2, of 0] k2 by (simp add: p regX_def regY_def)
  have c3: "Cycle 0 (one_instr 0x90 0x03) = Inr ((one_instr 0x90 0x03)\<lparr>pc := 0x202\<rparr>)"
    using unrecognized_step [OF f3 n3, of 0] k3 by (simp add: p regX_def regY_def)
  from f1 n1 k1 c1 f2 n2 k2 c2 f3 n3 k3 c3 show ?thesis by simp
qed

section \<open>Address arithmetic\<close>

lemma unat_pc_fetch: "fetch s = Inr w \<Longrightarrow> unat (pc s) + 2 \<le> 4096"
  by (simp add: fetch_def MEMORY_SIZE_def split: if_splits)

text \<open>
  Claim C2, as amended. \<^verbatim>\<open>pc\<close> and \<^verbatim>\<open>I\<close> are 16-bit values and no operation masks them to 12
  bits. For every instruction fetched, the handler runs on the state whose \<^verbatim>\<open>pc\<close> is exactly
  \<^verbatim>\<open>pc + 2\<close>: the fetch needs \<^verbatim>\<open>pc + 1\<close> inside the memory, so the sum is at most \<open>0x1000\<close> and
  is not reduced modulo \<open>0x1000\<close>. When the instruction is \<^verbatim>\<open>FX1E\<close>, the cycle leaves \<^verbatim>\<open>I\<close> at
  \<^verbatim>\<open>I + V[X]\<close> modulo \<open>0x10000\<close> and changes nothing else but \<^verbatim>\<open>pc\<close>.
\<close>

theorem address_arith_16bit:
  assumes "wf s" and "fetch s = Inr w"
  shows "Cycle rnd s = dispatch rnd w (s\<lparr>pc := pc s + 2\<rparr>) \<and>
         unat (pc s + 2) = unat (pc s) + 2 \<and>
         (nib1 w = 0xF \<and> val w = 0x1E \<longrightarrow>
            Cycle rnd s = Inr (s\<lparr>pc := pc s + 2, I := I s + ucast (V s ! unat (regX w))\<rparr>) \<and>
            unat (I s + ucast (V s ! unat (regX w))) =
              (unat (I s) + unat (V s ! unat (regX w))) mod 0x10000)"
proof -
  have "unat (pc s) + 2 \<le> 4096" using assms(2) by (rule unat_pc_fetch)
  then have p: "unat (pc s + 2) = unat (pc s) + 2"
    by (simp add: unat_word_ariths)
  have i: "unat (I s + ucast (V s ! unat (regX w))) =
           (unat (I s) + unat (V s ! unat (regX w))) mod 0x10000"
    by (simp add: unat_word_ariths unsigned_ucast_eq take_bit_eq_mod mod_simps)
  have c: "Cycle rnd s = dispatch rnd w (s\<lparr>pc := pc s + 2\<rparr>)"
    using assms(2) by (rule Cycle_dispatch)
  have "Cycle rnd s = Inr (s\<lparr>pc := pc s + 2, I := I s + ucast (V s ! unat (regX w))\<rparr>)"
    if "nib1 w = 0xF \<and> val w = 0x1E"
    using that by (simp add: c dispatch_def OpcodeFxxx_def)
  with p i c show ?thesis by blast
qed

theorem address_arith_16bit_witness:
  "wf wrap_example \<and> fetch wrap_example = Inr 0xF01E \<and> nib1 0xF01E = 0xF \<and> val 0xF01E = 0x1E \<and>
   Cycle 0 wrap_example = Inr (wrap_example\<lparr>pc := 0x1000, I := 0x1000\<rparr>)"
proof -
  have h1: "wf wrap_example"
    by (simp add: wrap_example_def wf_def Chip8_eq MEMORY_SIZE_def DISPLAY_WIDTH_def
        DISPLAY_HEIGHT_def length_fontset)
  have h2: "fetch wrap_example = Inr 0xF01E"
    by (simp add: wrap_example_def fetch_def Chip8_eq MEMORY_SIZE_def length_fontset nth_append)
  have h3: "nib1 0xF01E = 0xF" by (simp add: nib1_def)
  have h4: "val 0xF01E = 0x1E" by (simp add: val_def)
  have x: "unat (regX 0xF01E) = 0" by (simp add: regX_def)
  have "Cycle 0 wrap_example =
          Inr (wrap_example\<lparr>pc := pc wrap_example + 2,
                 I := I wrap_example + ucast (V wrap_example ! unat (regX 0xF01E))\<rparr>)"
    using address_arith_16bit [OF h1 h2, of 0] h3 h4 by blast
  then have "Cycle 0 wrap_example = Inr (wrap_example\<lparr>pc := 0x1000, I := 0x1000\<rparr>)"
    by (simp add: x) (simp add: wrap_example_def Chip8_eq)
  with h1 h2 h3 h4 show ?thesis by simp
qed

text \<open>
  The claim as first stated fails at \<open>wrap_example\<close>: after the cycle both \<^verbatim>\<open>pc\<close> and \<^verbatim>\<open>I\<close> are
  \<open>0x1000\<close>, above \<open>0xFFF\<close> and different from the sums reduced modulo \<open>0x1000\<close>.
\<close>

theorem address_mask_counterexample:
  "fetch wrap_example = Inr 0xF01E \<and>
   Cycle 0 wrap_example = Inr (wrap_example\<lparr>pc := 0x1000, I := 0x1000\<rparr>) \<and>
   \<not> (0x1000 :: u16) \<le> 0xFFF \<and>
   (0x1000 :: u16) \<noteq> of_nat ((unat (pc wrap_example) + 2) mod 0x1000) \<and>
   (0x1000 :: u16) \<noteq> of_nat ((unat (I wrap_example) + unat (V wrap_example ! 0)) mod 0x1000)"
proof -
  have h2: "fetch wrap_example = Inr 0xF01E"
    by (simp add: wrap_example_def fetch_def Chip8_eq MEMORY_SIZE_def length_fontset nth_append)
  have c: "Cycle 0 wrap_example = Inr (wrap_example\<lparr>pc := 0x1000, I := 0x1000\<rparr>)"
    by (simp add: Cycle_dispatch [OF h2] dispatch_def OpcodeFxxx_def nib1_def val_def regX_def)
      (simp add: wrap_example_def Chip8_eq)
  show ?thesis using h2 c by (simp add: wrap_example_def Chip8_eq)
qed

section \<open>Subscripts of the keypad\<close>

lemma skip_key_cases:
  assumes "fetch s = Inr w" and "nib1 w = 0xE" and "val w = 0x9E \<or> val w = 0xA1"
  shows "Cycle r s =
          (if unat (V s ! unat (regX w)) < 16 then
             Inr (s\<lparr>pc := (if (keypad s ! unat (V s ! unat (regX w)) \<noteq> 0) = (val w = 0x9E)
                            then pc s + 4 else pc s + 2)\<rparr>)
           else Inl OutOfBounds)"
  using assms
  by (auto simp add: Cycle_dispatch dispatch_def OpcodeExxx_def keypad_at_def)

text \<open>
  Claim C10. The skip instructions \<^verbatim>\<open>EX9E\<close> and \<^verbatim>\<open>EXA1\<close> read \<^verbatim>\<open>keypad[V[X]]\<close> with the whole byte
  of \<^verbatim>\<open>V[X]\<close> as subscript: when \<^verbatim>\<open>V[X]\<close> is at most \<open>0xF\<close> the cycle succeeds, skipping by the
  state of exactly that key, and when \<^verbatim>\<open>V[X]\<close> is above \<open>0xF\<close> the read is outside the sixteen
  entries. The key wait \<^verbatim>\<open>FX0A\<close> reads entries 0 to 15 only and succeeds in every state.
\<close>

theorem keypad_bounds:
  assumes "wf s" and "fetch s = Inr w"
  shows "(nib1 w = 0xE \<and> (val w = 0x9E \<or> val w = 0xA1) \<longrightarrow>
            (V s ! unat (regX w) \<le> 0xF \<longrightarrow>
               Cycle r s =
                 Inr (s\<lparr>pc := (if (keypad s ! unat (V s ! unat (regX w)) \<noteq> 0) = (val w = 0x9E)
                                then pc s + 4 else pc s + 2)\<rparr>)) \<and>
            (\<not> V s ! unat (regX w) \<le> 0xF \<longrightarrow> Cycle r s = Inl OutOfBounds)) \<and>
         (nib1 w = 0xF \<and> val w = 0x0A \<longrightarrow> (\<exists>s'. Cycle r s = Inr s'))"
proof (intro conjI impI)
  assume a: "nib1 w = 0xE \<and> (val w = 0x9E \<or> val w = 0xA1)"
  { assume "V s ! unat (regX w) \<le> 0xF"
    then have "unat (V s ! unat (regX w)) < 16" by (simp add: word_le_nat_alt)
    with a show "Cycle r s =
                 Inr (s\<lparr>pc := (if (keypad s ! unat (V s ! unat (regX w)) \<noteq> 0) = (val w = 0x9E)
                                then pc s + 4 else pc s + 2)\<rparr>)"
      using skip_key_cases [OF assms(2), of r] by simp }
  { assume "\<not> V s ! unat (regX w) \<le> 0xF"
    then have "\<not> unat (V s ! unat (regX w)) < 16" by (simp add: word_le_nat_alt)
    with a show "Cycle r s = Inl OutOfBounds"
      using skip_key_cases [OF assms(2), of r] by simp }
next
  assume a: "nib1 w = 0xF \<and> val w = 0x0A"
  obtain res where res: "key_scan (keypad s) 0 = Inr res"
    using key_scan_in_bounds [of "keypad s" 0] by (cases "key_scan (keypad s) 0") auto
  with a assms(2) show "\<exists>s'. Cycle r s = Inr s'"
    by (cases res) (simp_all add: Cycle_dispatch dispatch_def OpcodeFxxx_def)
qed


theorem keypad_bounds_witness:
  "wf key_example \<and> fetch key_example = Inr 0xE09E \<and> nib1 0xE09E = 0xE \<and> val 0xE09E = 0x9E \<and>
   V key_example ! unat (regX 0xE09E) = 0x10 \<and> \<not> V key_example ! unat (regX 0xE09E) \<le> 0xF \<and>
   Cycle 0 key_example = Inl OutOfBounds \<and>
   wf (one_instr 0xE0 0xA1) \<and> fetch (one_instr 0xE0 0xA1) = Inr 0xE0A1 \<and>
   nib1 0xE0A1 = 0xE \<and> val 0xE0A1 = 0xA1 \<and>
   V (one_instr 0xE0 0xA1) ! unat (regX 0xE0A1) \<le> 0xF \<and>
   Cycle 0 (one_instr 0xE0 0xA1) = Inr ((one_instr 0xE0 0xA1)\<lparr>pc := 0x204\<rparr>) \<and>
   wf wait_example \<and> fetch wait_example = Inr 0xF30A \<and> nib1 0xF30A = 0xF \<and> val 0xF30A = 0x0A \<and>
   (\<exists>s'. Cycle 0 wait_example = Inr s')"
proof -
  have a1: "wf key_example"
    using wf_one_instr [of "0xE0" "0x9E"] by (simp add: key_example_def wf_def Chip8_eq)
  have "fetch key_example = fetch (one_instr 0xE0 0x9E)"
    by (simp add: key_example_def fetch_def)
  then have a2: "fetch key_example = Inr 0xE09E" by (simp add: fetch_one_instr)
  have a3: "nib1 0xE09E = 0xE \<and> (val 0xE09E = 0x9E \<or> val 0xE09E = 0xA1)"
    by (simp add: nib1_def val_def)
  have a4: "V key_example ! unat (regX 0xE09E) = 0x10"
    by (simp add: key_example_def regX_def Chip8_eq)
  have a5: "\<not> V key_example ! unat (regX 0xE09E) \<le> 0xF" by (simp add: a4)
  have a6: "Cycle 0 key_example = Inl OutOfBounds"
    using keypad_bounds [OF a1 a2, of 0] a3 a5 by blast
  have b1: "wf (one_instr 0xE0 0xA1)" by (rule wf_one_instr)
  have b2: "fetch (one_instr 0xE0 0xA1) = Inr 0xE0A1" by (simp add: fetch_one_instr)
  have b3: "nib1 0xE0A1 = 0xE \<and> (val 0xE0A1 = 0x9E \<or> val 0xE0A1 = 0xA1)"
    by (simp add: nib1_def val_def)
  have b4: "V (one_instr 0xE0 0xA1) ! unat (regX 0xE0A1) = 0"
    by (simp add: one_instr_def regX_def Chip8_eq)
  have b5: "V (one_instr 0xE0 0xA1) ! unat (regX 0xE0A1) \<le> 0xF" by (simp add: b4)
  have "Cycle 0 (one_instr 0xE0 0xA1) =
          Inr ((one_instr 0xE0 0xA1)\<lparr>pc :=
             (if (keypad (one_instr 0xE0 0xA1) ! unat (V (one_instr 0xE0 0xA1) ! unat (regX 0xE0A1)) \<noteq> 0)
                 = (val 0xE0A1 = 0x9E)
              then pc (one_instr 0xE0 0xA1) + 4 else pc (one_instr 0xE0 0xA1) + 2)\<rparr>)"
    using keypad_bounds [OF b1 b2, of 0] b3 b5 by blast
  then have b6: "Cycle 0 (one_instr 0xE0 0xA1) = Inr ((one_instr 0xE0 0xA1)\<lparr>pc := 0x204\<rparr>)"
    by (simp add: b4 val_def) (simp add: one_instr_def Chip8_eq)
  have c1: "wf wait_example"
    by (simp add: wait_example_def wf_def Chip8_eq MEMORY_SIZE_def DISPLAY_WIDTH_def
        DISPLAY_HEIGHT_def length_fontset)
  have c2: "fetch wait_example = Inr 0xF30A"
    by (simp add: wait_example_def fetch_def Chip8_eq MEMORY_SIZE_def length_fontset nth_append)
  have c3: "nib1 0xF30A = 0xF \<and> val 0xF30A = 0x0A" by (simp add: nib1_def val_def)
  have c4: "\<exists>s'. Cycle 0 wait_example = Inr s'"
    using keypad_bounds [OF c1 c2, of 0] c3 by blast
  have v: "val 0xE09E = 0x9E" "val 0xE0A1 = 0xA1" by (simp_all add: val_def)
  from a1 a2 a3 a4 a5 a6 b1 b2 b3 b5 b6 c1 c2 c3 c4 v show ?thesis by simp
qed

section \<open>The register block in memory\<close>

lemma store_regs_ok:
  "unat (I s) + reg < MEMORY_SIZE \<Longrightarrow> length (memory s) = MEMORY_SIZE \<Longrightarrow>
   \<exists>m. store_regs reg i s = Inr (s\<lparr>memory := m\<rparr>) \<and> length m = MEMORY_SIZE \<and>
       (\<forall>a. m ! a = (if unat (I s) + i \<le> a \<and> a \<le> unat (I s) + reg
                      then V s ! (a - unat (I s)) else memory s ! a))"
proof (induction "Suc reg - i" arbitrary: i s)
  case 0
  then show ?case by (subst store_regs.simps) (auto intro!: exI [of _ "memory s"])
next
  case (Suc n)
  let ?s1 = "s\<lparr>memory := (memory s)[unat (I s) + i := V s ! i]\<rparr>"
  from Suc have i: "i \<le> reg" by simp
  have "\<exists>m. store_regs reg (i + 1) ?s1 = Inr (?s1\<lparr>memory := m\<rparr>) \<and> length m = MEMORY_SIZE \<and>
       (\<forall>a. m ! a = (if unat (I ?s1) + (i + 1) \<le> a \<and> a \<le> unat (I ?s1) + reg
                      then V ?s1 ! (a - unat (I ?s1)) else memory ?s1 ! a))"
    using Suc by (intro Suc.hyps) auto
  then obtain m where m: "store_regs reg (i + 1) ?s1 = Inr (s\<lparr>memory := m\<rparr>)"
      "length m = MEMORY_SIZE"
      "\<forall>a. m ! a = (if unat (I s) + (i + 1) \<le> a \<and> a \<le> unat (I s) + reg
                      then V s ! (a - unat (I s)) else (memory s)[unat (I s) + i := V s ! i] ! a)"
    by auto
  have "store_regs reg i s = Inr (s\<lparr>memory := m\<rparr>)"
    using i Suc.prems m(1) by (subst store_regs.simps) (simp add: mem_write_def)
  moreover have "m ! a = (if unat (I s) + i \<le> a \<and> a \<le> unat (I s) + reg
                      then V s ! (a - unat (I s)) else memory s ! a)" for a
    using m(3) i Suc.prems by (auto simp add: nth_list_update)
  ultimately show ?case using m(2) by blast
qed

lemma store_regs_fail:
  "i \<le> reg \<Longrightarrow> \<not> unat (I s) + reg < MEMORY_SIZE \<Longrightarrow> store_regs reg i s = Inl OutOfBounds"
proof (induction "Suc reg - i" arbitrary: i s)
  case 0
  then show ?case by simp
next
  case (Suc n)
  show ?case
  proof (cases "unat (I s) + i < MEMORY_SIZE")
    case False
    with Suc.prems show ?thesis by (subst store_regs.simps) (simp add: mem_write_def)
  next
    case True
    let ?s1 = "s\<lparr>memory := (memory s)[unat (I s) + i := V s ! i]\<rparr>"
    from True Suc.prems have "i < reg" by (cases "i = reg") auto
    then have "store_regs reg (i + 1) ?s1 = Inl OutOfBounds"
      using Suc by (intro Suc.hyps) auto
    with True Suc.prems show ?thesis by (subst store_regs.simps) (simp add: mem_write_def)
  qed
qed

lemma load_regs_ok:
  "unat (I s) + reg < MEMORY_SIZE \<Longrightarrow>
   \<exists>v. load_regs reg i s = Inr (s\<lparr>V := v\<rparr>) \<and> length v = length (V s) \<and>
       (\<forall>j<length (V s). v ! j = (if i \<le> j \<and> j \<le> reg then memory s ! (unat (I s) + j) else V s ! j))"
proof (induction "Suc reg - i" arbitrary: i s)
  case 0
  then show ?case by (subst load_regs.simps) (auto intro!: exI [of _ "V s"])
next
  case (Suc n)
  let ?s1 = "s\<lparr>V := (V s)[i := memory s ! (unat (I s) + i)]\<rparr>"
  from Suc have i: "i \<le> reg" by simp
  have "\<exists>v. load_regs reg (i + 1) ?s1 = Inr (?s1\<lparr>V := v\<rparr>) \<and> length v = length (V ?s1) \<and>
       (\<forall>j<length (V ?s1). v ! j = (if i + 1 \<le> j \<and> j \<le> reg then memory ?s1 ! (unat (I ?s1) + j)
                      else V ?s1 ! j))"
    using Suc by (intro Suc.hyps) auto
  then obtain v where v: "load_regs reg (i + 1) ?s1 = Inr (s\<lparr>V := v\<rparr>)"
      "length v = length (V s)"
      "\<forall>j<length (V s). v ! j = (if i + 1 \<le> j \<and> j \<le> reg then memory s ! (unat (I s) + j)
                      else (V s)[i := memory s ! (unat (I s) + i)] ! j)"
    by auto
  have "load_regs reg i s = Inr (s\<lparr>V := v\<rparr>)"
    using i Suc.prems v(1) by (subst load_regs.simps) simp
  moreover have "v ! j = (if i \<le> j \<and> j \<le> reg then memory s ! (unat (I s) + j) else V s ! j)"
    if "j < length (V s)" for j
    using v(3) i that by (cases "j = i") (auto simp add: nth_list_update)
  ultimately show ?case using v(2) by blast
qed

lemma load_regs_fail:
  "i \<le> reg \<Longrightarrow> \<not> unat (I s) + reg < MEMORY_SIZE \<Longrightarrow> load_regs reg i s = Inl OutOfBounds"
proof (induction "Suc reg - i" arbitrary: i s)
  case 0
  then show ?case by simp
next
  case (Suc n)
  show ?case
  proof (cases "unat (I s) + i < MEMORY_SIZE")
    case False
    with Suc.prems show ?thesis by (subst load_regs.simps) simp
  next
    case True
    let ?s1 = "s\<lparr>V := (V s)[i := memory s ! (unat (I s) + i)]\<rparr>"
    from True Suc.prems have "i < reg" by (cases "i = reg") auto
    then have "load_regs reg (i + 1) ?s1 = Inl OutOfBounds"
      using Suc by (intro Suc.hyps) auto
    with True Suc.prems show ?thesis by (subst load_regs.simps) simp
  qed
qed


text \<open>
  Claim C8. In every state with \<^verbatim>\<open>I + 3\<close> below 4096, executing \<^verbatim>\<open>F355\<close>, then setting
  \<^verbatim>\<open>V[0]\<close> to \<^verbatim>\<open>V[3]\<close> to zero, then executing \<^verbatim>\<open>F365\<close> succeeds and leaves \<^verbatim>\<open>V[0]\<close> to \<^verbatim>\<open>V[3]\<close>
  with the values they had at the start (and so the whole register file, the other
  registers not being touched).
\<close>

theorem regs_round_trip:
  assumes "wf s" and "unat (I s) + 3 < 4096"
  shows "\<exists>s1 s3. dispatch r1 0xF355 s = Inr s1 \<and>
           dispatch r2 0xF365 (s1\<lparr>V := (V s1)[0 := 0, 1 := 0, 2 := 0, 3 := 0]\<rparr>) = Inr s3 \<and>
           V s3 ! 0 = V s ! 0 \<and> V s3 ! 1 = V s ! 1 \<and> V s3 ! 2 = V s ! 2 \<and> V s3 ! 3 = V s ! 3 \<and>
           V s3 = V s"
proof -
  have d1: "dispatch r1 0xF355 s = store_regs 3 0 s"
    by (simp add: dispatch_def nib1_def regX_def val_def OpcodeFxxx_def)
  have d2: "dispatch r2 0xF365 t = load_regs 3 0 t" for t
    by (simp add: dispatch_def nib1_def regX_def val_def OpcodeFxxx_def)
  from assms obtain m where m: "store_regs 3 0 s = Inr (s\<lparr>memory := m\<rparr>)"
      "\<forall>a. m ! a = (if unat (I s) + 0 \<le> a \<and> a \<le> unat (I s) + 3
                      then V s ! (a - unat (I s)) else memory s ! a)"
    using store_regs_ok [of s 3 0] by (auto simp add: wf_def MEMORY_SIZE_def)
  let ?s2 = "s\<lparr>memory := m, V := (V s)[0 := 0, 1 := 0, 2 := 0, 3 := 0]\<rparr>"
  from assms obtain v where v: "load_regs 3 0 ?s2 = Inr (?s2\<lparr>V := v\<rparr>)"
      "length v = length (V ?s2)"
      "\<forall>j<length (V ?s2). v ! j = (if 0 \<le> j \<and> j \<le> 3 then memory ?s2 ! (unat (I ?s2) + j)
                                   else V ?s2 ! j)"
    using load_regs_ok [of ?s2 3 0] by (auto simp add: MEMORY_SIZE_def)
  have "v = V s"
  proof (rule nth_equalityI)
    show "length v = length (V s)" using v(2) by simp
    fix j assume "j < length v"
    then have j: "j < length (V s)" using v(2) by simp
    show "v ! j = V s ! j"
    proof (cases "j \<le> 3")
      case True
      with v(3) j have "v ! j = m ! (unat (I s) + j)" by simp
      also have "\<dots> = V s ! j" using m(2) True by simp
      finally show ?thesis .
    next
      case False
      with v(3) j show ?thesis by simp
    qed
  qed
  with m(1) v(1) d1 d2 show ?thesis by simp
qed


theorem regs_round_trip_witness:
  "wf regs_example \<and> unat (I regs_example) + 3 < 4096 \<and>
   (\<exists>s1 s3. dispatch 0 0xF355 regs_example = Inr s1 \<and>
       dispatch 0 0xF365 (s1\<lparr>V := (V s1)[0 := 0, 1 := 0, 2 := 0, 3 := 0]\<rparr>) = Inr s3 \<and>
       V s3 ! 0 = 0x11 \<and> V s3 ! 1 = 0x22 \<and> V s3 ! 2 = 0x33 \<and> V s3 ! 3 = 0x44)"
proof -
  have h1: "wf regs_example"
    by (simp add: regs_example_def wf_def Chip8_eq MEMORY_SIZE_def DISPLAY_WIDTH_def
        DISPLAY_HEIGHT_def length_fontset)
  have h2: "unat (I regs_example) + 3 < 4096" by (simp add: regs_example_def)
  have v: "V regs_example ! 0 = 0x11" "V regs_example ! Suc 0 = 0x22" "V regs_example ! 2 = 0x33"
    "V regs_example ! 3 = 0x44"
    by (simp_all add: regs_example_def Chip8_eq)
  show ?thesis using regs_round_trip [OF h1 h2, of 0 0] h1 h2 by (auto simp add: v)
qed

section \<open>Drawing a sprite: the column loop\<close>

lemma cell_lt: "cy < 32 \<Longrightarrow> cx < 64 \<Longrightarrow> cy * 64 + cx < (2048::nat)"
  by arith

lemma draw_pixel_eq:
  "draw_pixel x y row b col s =
     (if sprite_bit b col then
        s\<lparr>V := (if display s ! ((y + row) * 64 + (x + col)) = 1 then (V s)[0xF := 1] else V s),
          display := (display s)[(y + row) * 64 + (x + col) :=
                        display s ! ((y + row) * 64 + (x + col)) XOR 1]\<rparr>
      else s)"
  by (simp add: draw_pixel_def sprite_bit_def Let_def DISPLAY_WIDTH_def)

lemma draw_cols_stop: "\<not> col < 8 \<or> x + col \<ge> 64 \<Longrightarrow> draw_cols x y row b col s = s"
  by (subst draw_cols.simps) (auto simp add: DISPLAY_WIDTH_def)

lemma draw_cols_step:
  "col < 8 \<Longrightarrow> x + col < 64 \<Longrightarrow>
   draw_cols x y row b col s = draw_cols x y row b (col + 1) (draw_pixel x y row b col s)"
  by (subst draw_cols.simps) (simp add: DISPLAY_WIDTH_def)


lemma cell_inj:
  assumes "cx < 64" and "c < (64::nat)"
  shows "(cy * 64 + cx = R * 64 + c) = (cy = R \<and> cx = c)"
proof
  assume e: "cy * 64 + cx = R * 64 + c"
  then have "(cy * 64 + cx) div 64 = (R * 64 + c) div 64" by simp
  with assms have "cy = R" by simp
  with e show "cy = R \<and> cx = c" by simp
qed simp


lemma draw_pixel_frame: "\<exists>v d. draw_pixel x y row b col s = s\<lparr>V := v, display := d\<rparr>"
proof -
  have "draw_pixel x y row b col s =
          s\<lparr>V := V (draw_pixel x y row b col s), display := display (draw_pixel x y row b col s)\<rparr>"
    by (simp add: draw_pixel_eq)
  then show ?thesis by blast
qed

lemma draw_pixel_length:
  "length (display (draw_pixel x y row b col s)) = length (display s)"
  by (simp add: draw_pixel_eq)

lemma draw_cols_frame: "\<exists>v d. draw_cols x y row b col s = s\<lparr>V := v, display := d\<rparr>"
proof (induction "8 - col" arbitrary: col s)
  case 0
  then have "draw_cols x y row b col s = s" by (intro draw_cols_stop) simp
  then have "draw_cols x y row b col s = s\<lparr>V := V s, display := display s\<rparr>" by simp
  then show ?case by blast
next
  case (Suc n)
  show ?case
  proof (cases "x + col < 64")
    case False
    then have "draw_cols x y row b col s = s" by (intro draw_cols_stop) simp
    then have "draw_cols x y row b col s = s\<lparr>V := V s, display := display s\<rparr>" by simp
    then show ?thesis by blast
  next
    case True
    from Suc have col: "col < 8" by simp
    obtain v1 d1 where s1: "draw_pixel x y row b col s = s\<lparr>V := v1, display := d1\<rparr>"
      using draw_pixel_frame by blast
    have "\<exists>v d. draw_cols x y row b (col + 1) (s\<lparr>V := v1, display := d1\<rparr>) =
                 s\<lparr>V := v1, display := d1\<rparr>\<lparr>V := v, display := d\<rparr>"
      using Suc by (intro Suc.hyps) auto
    then obtain v d where "draw_cols x y row b (col + 1) (s\<lparr>V := v1, display := d1\<rparr>) =
                 s\<lparr>V := v, display := d\<rparr>"
      by auto
    then have "draw_cols x y row b col s = s\<lparr>V := v, display := d\<rparr>"
      using draw_cols_step [OF col True, of y row b s] s1 by simp
    then show ?thesis by blast
  qed
qed

lemma draw_cols_length:
  "length (display (draw_cols x y row b col s)) = length (display s)"
proof (induction "8 - col" arbitrary: col s)
  case 0
  then have "draw_cols x y row b col s = s" by (intro draw_cols_stop) simp
  then show ?case by simp
next
  case (Suc n)
  show ?case
  proof (cases "x + col < 64")
    case False
    then have "draw_cols x y row b col s = s" by (intro draw_cols_stop) simp
    then show ?thesis by simp
  next
    case True
    from Suc have col: "col < 8" by simp
    have "length (display (draw_cols x y row b (col + 1) (draw_pixel x y row b col s))) =
          length (display (draw_pixel x y row b col s))"
      using Suc by (intro Suc.hyps) auto
    then show ?thesis
      using draw_cols_step [OF col True, of y row b s] by (simp add: draw_pixel_length)
  qed
qed


lemma draw_pixel_display:
  assumes "length (display s) = 2048" and "y + row < 32" and "x + col < 64"
    and "cy < 32" and "cx < 64"
  shows "display (draw_pixel x y row b col s) ! (cy * 64 + cx) =
           (if cy = y + row \<and> cx = x + col \<and> sprite_bit b col
            then display s ! (cy * 64 + cx) XOR 1 else display s ! (cy * 64 + cx))"
proof -
  have "(y + row) * 64 + (x + col) < 2048" using assms(2,3) by (rule cell_lt)
  then show ?thesis
    using assms(1) cell_inj [OF assms(5,3), of cy "y + row"]
    by (simp add: draw_pixel_eq nth_list_update) metis
qed

lemma draw_pixel_V:
  "V (draw_pixel x y row b col s) =
     (if sprite_bit b col \<and> display s ! ((y + row) * 64 + (x + col)) = 1
      then (V s)[0xF := 1] else V s)"
  by (simp add: draw_pixel_eq)

lemma draw_cols_display:
  assumes "length (display s) = 2048" and "y + row < 32" and "cy < 32" and "cx < 64"
  shows "display (draw_cols x y row b col s) ! (cy * 64 + cx) =
           (if cy = y + row \<and> x + col \<le> cx \<and> cx < x + 8 \<and> sprite_bit b (cx - x)
            then display s ! (cy * 64 + cx) XOR 1 else display s ! (cy * 64 + cx))"
  using assms(1)
proof (induction "8 - col" arbitrary: col s)
  case 0
  then have "draw_cols x y row b col s = s" by (intro draw_cols_stop) simp
  with 0 show ?case by auto
next
  case (Suc n)
  show ?case
  proof (cases "x + col < 64")
    case False
    then have "draw_cols x y row b col s = s" by (intro draw_cols_stop) simp
    with False assms(4) show ?thesis by simp
  next
    case True
    from Suc have col: "col < 8" by simp
    define s1 where "s1 = draw_pixel x y row b col s"
    have len1: "length (display s1) = 2048"
      unfolding s1_def using Suc.prems by (simp add: draw_pixel_length)
    have d1: "display s1 ! (cy * 64 + cx) =
           (if cy = y + row \<and> cx = x + col \<and> sprite_bit b col
            then display s ! (cy * 64 + cx) XOR 1 else display s ! (cy * 64 + cx))"
      unfolding s1_def using Suc.prems assms(2) True assms(3,4) by (rule draw_pixel_display)
    have ih: "display (draw_cols x y row b (col + 1) s1) ! (cy * 64 + cx) =
           (if cy = y + row \<and> x + (col + 1) \<le> cx \<and> cx < x + 8 \<and> sprite_bit b (cx - x)
            then display s1 ! (cy * 64 + cx) XOR 1 else display s1 ! (cy * 64 + cx))"
      using Suc.hyps(2) len1 by (intro Suc.hyps(1)) auto
    have "draw_cols x y row b col s = draw_cols x y row b (col + 1) s1"
      unfolding s1_def using col True by (rule draw_cols_step)
    then show ?thesis
      using ih d1 col by (cases "cx = x + col") auto
  qed
qed

lemma draw_cols_V:
  assumes "length (display s) = 2048" and "y + row < 32"
  shows "V (draw_cols x y row b col s) =
           (if \<exists>c. col \<le> c \<and> c < 8 \<and> x + c < 64 \<and> sprite_bit b c \<and>
                    display s ! ((y + row) * 64 + (x + c)) = 1
            then (V s)[0xF := 1] else V s)"
  using assms(1)
proof (induction "8 - col" arbitrary: col s)
  case 0
  then have "draw_cols x y row b col s = s" by (intro draw_cols_stop) simp
  with 0 show ?case by auto
next
  case (Suc n)
  show ?case
  proof (cases "x + col < 64")
    case False
    then have "draw_cols x y row b col s = s" by (intro draw_cols_stop) simp
    with False show ?thesis by auto
  next
    case True
    from Suc have col: "col < 8" by simp
    define s1 where "s1 = draw_pixel x y row b col s"
    define E1 where "E1 \<longleftrightarrow> (\<exists>c. col + 1 \<le> c \<and> c < 8 \<and> x + c < 64 \<and> sprite_bit b c \<and>
                    display s ! ((y + row) * 64 + (x + c)) = 1)"
    define E0 where "E0 \<longleftrightarrow> sprite_bit b col \<and> display s ! ((y + row) * 64 + (x + col)) = 1"
    have len1: "length (display s1) = 2048"
      unfolding s1_def using Suc.prems by (simp add: draw_pixel_length)
    have d1: "display s1 ! ((y + row) * 64 + (x + c)) = display s ! ((y + row) * 64 + (x + c))"
      if "col + 1 \<le> c" "x + c < 64" for c
      unfolding s1_def
      using draw_pixel_display [OF Suc.prems assms(2) True assms(2) that(2), of b] that(1)
      by simp
    have v1: "V s1 = (if E0 then (V s)[0xF := 1] else V s)"
      unfolding s1_def E0_def by (rule draw_pixel_V)
    have "V (draw_cols x y row b (col + 1) s1) =
           (if \<exists>c. col + 1 \<le> c \<and> c < 8 \<and> x + c < 64 \<and> sprite_bit b c \<and>
                    display s1 ! ((y + row) * 64 + (x + c)) = 1
            then (V s1)[0xF := 1] else V s1)"
      using Suc.hyps(2) len1 by (intro Suc.hyps(1)) auto
    moreover have "(\<exists>c. col + 1 \<le> c \<and> c < 8 \<and> x + c < 64 \<and> sprite_bit b c \<and>
                    display s1 ! ((y + row) * 64 + (x + c)) = 1) \<longleftrightarrow> E1"
      unfolding E1_def using d1 by metis
    ultimately have ih: "V (draw_cols x y row b (col + 1) s1) =
           (if E1 then (V s1)[0xF := 1] else V s1)"
      by simp
    have e: "(\<exists>c. col \<le> c \<and> c < 8 \<and> x + c < 64 \<and> sprite_bit b c \<and>
                    display s ! ((y + row) * 64 + (x + c)) = 1) \<longleftrightarrow> E0 \<or> E1"
    proof
      assume "\<exists>c. col \<le> c \<and> c < 8 \<and> x + c < 64 \<and> sprite_bit b c \<and>
                    display s ! ((y + row) * 64 + (x + c)) = 1"
      then obtain c where c: "col \<le> c" "c < 8" "x + c < 64" "sprite_bit b c"
        "display s ! ((y + row) * 64 + (x + c)) = 1" by blast
      show "E0 \<or> E1"
      proof (cases "c = col")
        case True with c show ?thesis unfolding E0_def by simp
      next
        case False
        with c have "col + 1 \<le> c" by simp
        with c show ?thesis unfolding E1_def by blast
      qed
    next
      assume "E0 \<or> E1"
      then show "\<exists>c. col \<le> c \<and> c < 8 \<and> x + c < 64 \<and> sprite_bit b c \<and>
                    display s ! ((y + row) * 64 + (x + c)) = 1"
      proof
        assume E0
        with col True show ?thesis unfolding E0_def by (intro exI [of _ col]) simp
      next
        assume E1
        then obtain c where "col + 1 \<le> c \<and> c < 8 \<and> x + c < 64 \<and> sprite_bit b c \<and>
                    display s ! ((y + row) * 64 + (x + c)) = 1" unfolding E1_def by blast
        then show ?thesis by (intro exI [of _ c]) simp
      qed
    qed
    have "draw_cols x y row b col s = draw_cols x y row b (col + 1) s1"
      unfolding s1_def using col True by (rule draw_cols_step)
    then show ?thesis
      unfolding e using ih v1 by (cases E0; cases E1) simp_all
  qed
qed

section \<open>Drawing a sprite: the row loop\<close>

lemma draw_rows_stop:
  "\<not> row < nib \<or> y + row \<ge> 32 \<Longrightarrow> draw_rows x y nib row s = Inr s"
  by (subst draw_rows.simps) (auto simp add: DISPLAY_HEIGHT_def)

lemma draw_rows_step:
  "row < nib \<Longrightarrow> y + row < 32 \<Longrightarrow> unat (I s) + row < 4096 \<Longrightarrow>
   draw_rows x y nib row s =
     draw_rows x y nib (row + 1) (draw_cols x y row (memory s ! (unat (I s) + row)) 0 s)"
  by (subst draw_rows.simps) (simp add: DISPLAY_HEIGHT_def MEMORY_SIZE_def)

lemma draw_rows_oob:
  "row < nib \<Longrightarrow> y + row < 32 \<Longrightarrow> \<not> unat (I s) + row < 4096 \<Longrightarrow>
   draw_rows x y nib row s = Inl OutOfBounds"
  by (subst draw_rows.simps) (simp add: DISPLAY_HEIGHT_def MEMORY_SIZE_def)

lemma draw_cols_memory_I:
  "memory (draw_cols x y row b col s) = memory s \<and> I (draw_cols x y row b col s) = I s"
proof -
  obtain v d where "draw_cols x y row b col s = s\<lparr>V := v, display := d\<rparr>"
    using draw_cols_frame by blast
  then show ?thesis by simp
qed

lemma draw_rows_fail:
  "row \<le> r \<Longrightarrow> r < nib \<Longrightarrow> y + r < 32 \<Longrightarrow> \<not> unat (I s) + r < 4096 \<Longrightarrow>
   draw_rows x y nib row s = Inl OutOfBounds"
proof (induction "nib - row" arbitrary: row s)
  case 0
  then show ?case by simp
next
  case (Suc n)
  then have row: "row < nib" "y + row < 32" by simp_all
  show ?case
  proof (cases "unat (I s) + row < 4096")
    case False
    with row show ?thesis by (rule draw_rows_oob)
  next
    case True
    define s1 where "s1 = draw_cols x y row (memory s ! (unat (I s) + row)) 0 s"
    have i1: "I s1 = I s" unfolding s1_def by (simp add: draw_cols_memory_I)
    from True Suc.prems have "row \<noteq> r" by auto
    with Suc.prems have "row + 1 \<le> r" by simp
    then have "draw_rows x y nib (row + 1) s1 = Inl OutOfBounds"
      using Suc.hyps(2) Suc.prems i1 by (intro Suc.hyps(1)) auto
    then show ?thesis
      using draw_rows_step [OF row True, of x] by (simp add: s1_def)
  qed
qed

lemma draw_rows_ok:
  "\<forall>r. row \<le> r \<and> r < nib \<and> y + r < 32 \<longrightarrow> unat (I s) + r < 4096 \<Longrightarrow>
   \<exists>s'. draw_rows x y nib row s = Inr s'"
proof (induction "nib - row" arbitrary: row s)
  case 0
  then have "draw_rows x y nib row s = Inr s" by (intro draw_rows_stop) simp
  then show ?case by blast
next
  case (Suc n)
  then have row: "row < nib" by simp
  show ?case
  proof (cases "y + row < 32")
    case False
    then have "draw_rows x y nib row s = Inr s" by (intro draw_rows_stop) simp
    then show ?thesis by blast
  next
    case True
    with row Suc.prems have inb: "unat (I s) + row < 4096" by simp
    define s1 where "s1 = draw_cols x y row (memory s ! (unat (I s) + row)) 0 s"
    have i1: "I s1 = I s" unfolding s1_def by (simp add: draw_cols_memory_I)
    have "\<exists>s'. draw_rows x y nib (row + 1) s1 = Inr s'"
      using Suc.hyps(2) Suc.prems i1 by (intro Suc.hyps(1)) auto
    then show ?thesis
      using draw_rows_step [OF row True inb, of x] by (simp add: s1_def)
  qed
qed

lemma draw_rows_frame:
  "draw_rows x y nib row s = Inr s' \<Longrightarrow> \<exists>v d. s' = s\<lparr>V := v, display := d\<rparr>"
proof (induction "nib - row" arbitrary: row s)
  case 0
  then have "draw_rows x y nib row s = Inr s" by (intro draw_rows_stop) simp
  with 0 have "s' = s\<lparr>V := V s, display := display s\<rparr>" by simp
  then show ?case by blast
next
  case (Suc n)
  then have row: "row < nib" by simp
  show ?case
  proof (cases "y + row < 32")
    case False
    then have "draw_rows x y nib row s = Inr s" by (intro draw_rows_stop) simp
    with Suc.prems have "s' = s\<lparr>V := V s, display := display s\<rparr>" by simp
    then show ?thesis by blast
  next
    case True
    show ?thesis
    proof (cases "unat (I s) + row < 4096")
      case False
      with row True have "draw_rows x y nib row s = Inl OutOfBounds" by (rule draw_rows_oob)
      with Suc.prems show ?thesis by simp
    next
      case inb: True
      obtain v1 d1 where s1:
        "draw_cols x y row (memory s ! (unat (I s) + row)) 0 s = s\<lparr>V := v1, display := d1\<rparr>"
        using draw_cols_frame by blast
      have "draw_rows x y nib (row + 1) (s\<lparr>V := v1, display := d1\<rparr>) = Inr s'"
        using draw_rows_step [OF row True inb, of x] Suc.prems s1 by simp
      then have "\<exists>v d. s' = s\<lparr>V := v1, display := d1\<rparr>\<lparr>V := v, display := d\<rparr>"
        using Suc.hyps(2) by (intro Suc.hyps(1)) auto
      then show ?thesis by simp
    qed
  qed
qed

lemma draw_rows_length:
  "draw_rows x y nib row s = Inr s' \<Longrightarrow> length (display s') = length (display s)"
proof (induction "nib - row" arbitrary: row s)
  case 0
  then have "draw_rows x y nib row s = Inr s" by (intro draw_rows_stop) simp
  with 0 show ?case by simp
next
  case (Suc n)
  then have row: "row < nib" by simp
  show ?case
  proof (cases "y + row < 32")
    case False
    then have "draw_rows x y nib row s = Inr s" by (intro draw_rows_stop) simp
    with Suc.prems show ?thesis by simp
  next
    case True
    show ?thesis
    proof (cases "unat (I s) + row < 4096")
      case False
      with row True have "draw_rows x y nib row s = Inl OutOfBounds" by (rule draw_rows_oob)
      with Suc.prems show ?thesis by simp
    next
      case inb: True
      define s1 where "s1 = draw_cols x y row (memory s ! (unat (I s) + row)) 0 s"
      have "draw_rows x y nib (row + 1) s1 = Inr s'"
        using draw_rows_step [OF row True inb, of x] Suc.prems by (simp add: s1_def)
      then have "length (display s') = length (display s1)"
        using Suc.hyps(2) by (intro Suc.hyps(1)) auto
      then show ?thesis by (simp add: s1_def draw_cols_length)
    qed
  qed
qed


lemma draw_rows_display:
  assumes "cy < 32" and "cx < 64"
  shows "length (display s) = 2048 \<Longrightarrow> draw_rows x y nib row s = Inr s' \<Longrightarrow>
         display s' ! (cy * 64 + cx) =
           (if y + row \<le> cy \<and> cy < y + nib \<and> x \<le> cx \<and> cx < x + 8 \<and>
               sprite_bit (memory s ! (unat (I s) + (cy - y))) (cx - x)
            then display s ! (cy * 64 + cx) XOR 1 else display s ! (cy * 64 + cx))"
proof (induction "nib - row" arbitrary: row s)
  case 0
  then have "draw_rows x y nib row s = Inr s" by (intro draw_rows_stop) simp
  with 0 show ?case by auto
next
  case (Suc n)
  then have row: "row < nib" by simp
  show ?case
  proof (cases "y + row < 32")
    case False
    then have "draw_rows x y nib row s = Inr s" by (intro draw_rows_stop) simp
    with Suc.prems False assms show ?thesis by auto
  next
    case True
    show ?thesis
    proof (cases "unat (I s) + row < 4096")
      case False
      with row True have "draw_rows x y nib row s = Inl OutOfBounds" by (rule draw_rows_oob)
      with Suc.prems show ?thesis by simp
    next
      case inb: True
      define b where "b = memory s ! (unat (I s) + row)"
      define s1 where "s1 = draw_cols x y row b 0 s"
      have len1: "length (display s1) = 2048"
        using Suc.prems(1) by (simp add: s1_def draw_cols_length)
      have m1: "memory s1 = memory s" "I s1 = I s"
        by (simp_all add: s1_def draw_cols_memory_I)
      have d1: "display s1 ! (cy * 64 + cx) =
           (if cy = y + row \<and> x + 0 \<le> cx \<and> cx < x + 8 \<and> sprite_bit b (cx - x)
            then display s ! (cy * 64 + cx) XOR 1 else display s ! (cy * 64 + cx))"
        unfolding s1_def using Suc.prems(1) True assms by (rule draw_cols_display)
      have r1: "draw_rows x y nib (row + 1) s1 = Inr s'"
        using draw_rows_step [OF row True inb, of x] Suc.prems(2) by (simp add: s1_def b_def)
      have ih: "display s' ! (cy * 64 + cx) =
           (if y + (row + 1) \<le> cy \<and> cy < y + nib \<and> x \<le> cx \<and> cx < x + 8 \<and>
               sprite_bit (memory s1 ! (unat (I s1) + (cy - y))) (cx - x)
            then display s1 ! (cy * 64 + cx) XOR 1 else display s1 ! (cy * 64 + cx))"
        using Suc.hyps(2) len1 r1 by (intro Suc.hyps(1)) auto
      show ?thesis
      proof (cases "cy = y + row")
        case True
        then have "cy - y = row" by simp
        with True row ih d1 show ?thesis by (simp add: m1 b_def)
      next
        case False
        with ih d1 show ?thesis by (auto simp add: m1)
      qed
    qed
  qed
qed


lemma draw_rows_V:
  "length (display s) = 2048 \<Longrightarrow> draw_rows x y nib row s = Inr s' \<Longrightarrow>
   V s' =
     (if \<exists>r c. row \<le> r \<and> r < nib \<and> y + r < 32 \<and> c < 8 \<and> x + c < 64 \<and>
               sprite_bit (memory s ! (unat (I s) + r)) c \<and>
               display s ! ((y + r) * 64 + (x + c)) = 1
      then (V s)[0xF := 1] else V s)"
proof (induction "nib - row" arbitrary: row s)
  case 0
  then have "draw_rows x y nib row s = Inr s" by (intro draw_rows_stop) simp
  with 0 show ?case by auto
next
  case (Suc n)
  then have row: "row < nib" by simp
  show ?case
  proof (cases "y + row < 32")
    case False
    then have "draw_rows x y nib row s = Inr s" by (intro draw_rows_stop) simp
    with Suc.prems False show ?thesis by auto
  next
    case True
    show ?thesis
    proof (cases "unat (I s) + row < 4096")
      case False
      with row True have "draw_rows x y nib row s = Inl OutOfBounds" by (rule draw_rows_oob)
      with Suc.prems show ?thesis by simp
    next
      case inb: True
      define b where "b = memory s ! (unat (I s) + row)"
      define s1 where "s1 = draw_cols x y row b 0 s"
      define E0 where "E0 \<longleftrightarrow> (\<exists>c. 0 \<le> c \<and> c < 8 \<and> x + c < 64 \<and> sprite_bit b c \<and>
                    display s ! ((y + row) * 64 + (x + c)) = 1)"
      define E1 where "E1 \<longleftrightarrow> (\<exists>r c. row + 1 \<le> r \<and> r < nib \<and> y + r < 32 \<and> c < 8 \<and>
               x + c < 64 \<and> sprite_bit (memory s ! (unat (I s) + r)) c \<and>
               display s ! ((y + r) * 64 + (x + c)) = 1)"
      have len1: "length (display s1) = 2048"
        using Suc.prems(1) by (simp add: s1_def draw_cols_length)
      have m1: "memory s1 = memory s" "I s1 = I s"
        by (simp_all add: s1_def draw_cols_memory_I)
      have v1: "V s1 = (if E0 then (V s)[0xF := 1] else V s)"
        unfolding s1_def E0_def using Suc.prems(1) True by (rule draw_cols_V)
      have d1: "display s1 ! ((y + r) * 64 + (x + c)) = display s ! ((y + r) * 64 + (x + c))"
        if "row + 1 \<le> r" "y + r < 32" "x + c < 64" for r c
        unfolding s1_def
        using draw_cols_display [OF Suc.prems(1) True that(2,3), of x b 0] that(1) by simp
      have r1: "draw_rows x y nib (row + 1) s1 = Inr s'"
        using draw_rows_step [OF row True inb, of x] Suc.prems(2) by (simp add: s1_def b_def)
      have "V s' =
         (if \<exists>r c. row + 1 \<le> r \<and> r < nib \<and> y + r < 32 \<and> c < 8 \<and> x + c < 64 \<and>
               sprite_bit (memory s1 ! (unat (I s1) + r)) c \<and>
               display s1 ! ((y + r) * 64 + (x + c)) = 1
          then (V s1)[0xF := 1] else V s1)"
        using Suc.hyps(2) len1 r1 by (intro Suc.hyps(1)) auto
      moreover have "(\<exists>r c. row + 1 \<le> r \<and> r < nib \<and> y + r < 32 \<and> c < 8 \<and> x + c < 64 \<and>
               sprite_bit (memory s1 ! (unat (I s1) + r)) c \<and>
               display s1 ! ((y + r) * 64 + (x + c)) = 1) \<longleftrightarrow> E1"
        unfolding E1_def m1 using d1 by metis
      ultimately have ih: "V s' = (if E1 then (V s1)[0xF := 1] else V s1)" by simp
      have e: "(\<exists>r c. row \<le> r \<and> r < nib \<and> y + r < 32 \<and> c < 8 \<and> x + c < 64 \<and>
               sprite_bit (memory s ! (unat (I s) + r)) c \<and>
               display s ! ((y + r) * 64 + (x + c)) = 1) \<longleftrightarrow> E0 \<or> E1"
      proof
        assume "\<exists>r c. row \<le> r \<and> r < nib \<and> y + r < 32 \<and> c < 8 \<and> x + c < 64 \<and>
               sprite_bit (memory s ! (unat (I s) + r)) c \<and>
               display s ! ((y + r) * 64 + (x + c)) = 1"
        then obtain r c where rc: "row \<le> r" "r < nib" "y + r < 32" "c < 8" "x + c < 64"
          "sprite_bit (memory s ! (unat (I s) + r)) c"
          "display s ! ((y + r) * 64 + (x + c)) = 1" by blast
        show "E0 \<or> E1"
        proof (cases "r = row")
          case True
          with rc have "E0" unfolding E0_def b_def by blast
          then show ?thesis ..
        next
          case False
          with rc have "row + 1 \<le> r" by simp
          with rc have "E1" unfolding E1_def by blast
          then show ?thesis ..
        qed
      next
        assume "E0 \<or> E1"
        then show "\<exists>r c. row \<le> r \<and> r < nib \<and> y + r < 32 \<and> c < 8 \<and> x + c < 64 \<and>
               sprite_bit (memory s ! (unat (I s) + r)) c \<and>
               display s ! ((y + r) * 64 + (x + c)) = 1"
        proof
          assume E0
          then obtain c where "c < 8 \<and> x + c < 64 \<and> sprite_bit b c \<and>
                    display s ! ((y + row) * 64 + (x + c)) = 1" unfolding E0_def by blast
          with row True show ?thesis unfolding b_def by (intro exI [of _ row] exI [of _ c]) simp
        next
          assume E1
          then obtain r c where "row + 1 \<le> r \<and> r < nib \<and> y + r < 32 \<and> c < 8 \<and>
               x + c < 64 \<and> sprite_bit (memory s ! (unat (I s) + r)) c \<and>
               display s ! ((y + r) * 64 + (x + c)) = 1" unfolding E1_def by blast
          then show ?thesis by (intro exI [of _ r] exI [of _ c]) simp
        qed
      qed
      show ?thesis unfolding e using ih v1 by (cases E0; cases E1) simp_all
    qed
  qed
qed

section \<open>Drawing a sprite: the instruction\<close>

lemma collision_ex:
  "collision s x y n \<longleftrightarrow>
     (\<exists>cy cx. cy < DISPLAY_HEIGHT \<and> cx < DISPLAY_WIDTH \<and> sprite_on s x y n cx cy \<and>
        display s ! (cy * DISPLAY_WIDTH + cx) = 1)"
  unfolding collision_def list_ex_iff set_upt Bex_def atLeastLessThan_iff by blast

lemma collision_iff:
  "collision s x y n \<longleftrightarrow>
     (\<exists>r c. 0 \<le> r \<and> r < n \<and> y + r < 32 \<and> c < 8 \<and> x + c < 64 \<and>
               sprite_bit (memory s ! (unat (I s) + r)) c \<and>
               display s ! ((y + r) * 64 + (x + c)) = 1)"
proof
  assume "collision s x y n"
  then obtain cy cx where c: "cy < 32" "cx < 64" "y \<le> cy" "cy < y + n" "x \<le> cx" "cx < x + 8"
    "sprite_bit (memory s ! (unat (I s) + (cy - y))) (cx - x)" "display s ! (cy * 64 + cx) = 1"
    unfolding collision_ex sprite_on_def DISPLAY_WIDTH_def DISPLAY_HEIGHT_def by blast
  then have "y + (cy - y) = cy" "x + (cx - x) = cx" by simp_all
  with c show "\<exists>r c. 0 \<le> r \<and> r < n \<and> y + r < 32 \<and> c < 8 \<and> x + c < 64 \<and>
               sprite_bit (memory s ! (unat (I s) + r)) c \<and>
               display s ! ((y + r) * 64 + (x + c)) = 1"
    by (intro exI [of _ "cy - y"] exI [of _ "cx - x"]) simp
next
  assume "\<exists>r c. 0 \<le> r \<and> r < n \<and> y + r < 32 \<and> c < 8 \<and> x + c < 64 \<and>
               sprite_bit (memory s ! (unat (I s) + r)) c \<and>
               display s ! ((y + r) * 64 + (x + c)) = 1"
  then obtain r c where "r < n" "y + r < 32" "c < 8" "x + c < 64"
    "sprite_bit (memory s ! (unat (I s) + r)) c" "display s ! ((y + r) * 64 + (x + c)) = 1"
    by blast
  then show "collision s x y n"
    unfolding collision_ex sprite_on_def DISPLAY_WIDTH_def DISPLAY_HEIGHT_def
    by (intro exI [of _ "y + r"] exI [of _ "x + c"]) simp
qed

lemma OpcodeDxxx_ok:
  assumes "length (display s) = 2048"
    and "x = unat (V s ! rx) mod 64" and "y = unat (V s ! ry) mod 32"
    and inb: "\<forall>r. r < n \<and> y + r < 32 \<longrightarrow> unat (I s) + r < 4096"
  shows "\<exists>d. OpcodeDxxx rx ry n s =
               Inr (s\<lparr>V := (V s)[0xF := (if collision s x y n then 1 else 0)], display := d,
                      drawFlag := True\<rparr>) \<and>
             length d = 2048 \<and>
             (\<forall>cy cx. cy < 32 \<and> cx < 64 \<longrightarrow>
                d ! (cy * 64 + cx) =
                  (if sprite_on s x y n cx cy then display s ! (cy * 64 + cx) XOR 1
                   else display s ! (cy * 64 + cx)))"
proof -
  define s1 where "s1 = s\<lparr>V := (V s)[0xF := 0]\<rparr>"
  have f1: "memory s1 = memory s" "I s1 = I s" "display s1 = display s"
    "V s1 = (V s)[0xF := 0]"
    by (simp_all add: s1_def)
  have "\<forall>r. 0 \<le> r \<and> r < n \<and> y + r < 32 \<longrightarrow> unat (I s1) + r < 4096"
    using inb by (simp add: f1)
  then obtain s2 where s2: "draw_rows x y n 0 s1 = Inr s2"
    using draw_rows_ok [of 0 n y s1 x] by blast
  have len1: "length (display s1) = 2048" using assms(1) by (simp add: f1)
  obtain v d where fr: "s2 = s1\<lparr>V := v, display := d\<rparr>"
    using draw_rows_frame [OF s2] by blast
  have len2: "length (display s2) = 2048"
    using draw_rows_length [OF s2] len1 by simp
  have "V s2 = (if collision s1 x y n then (V s1)[0xF := 1] else V s1)"
    unfolding collision_iff using len1 s2 by (rule draw_rows_V)
  moreover have "collision s1 x y n = collision s x y n"
    by (simp add: collision_ex sprite_on_def f1)
  ultimately have v2: "V s2 = (V s)[0xF := (if collision s x y n then 1 else 0)]"
    by (simp add: f1)
  have d2: "display s2 ! (cy * 64 + cx) =
              (if sprite_on s x y n cx cy then display s ! (cy * 64 + cx) XOR 1
               else display s ! (cy * 64 + cx))"
    if "cy < 32" "cx < 64" for cy cx
    using draw_rows_display [OF that len1 s2] unfolding sprite_on_def f1
    by (simp only: add_0_right)
  have "s2 = s\<lparr>V := (V s)[0xF := (if collision s x y n then 1 else 0)], display := display s2\<rparr>"
    using fr v2 by (simp add: s1_def)
  moreover have "OpcodeDxxx rx ry n s = Inr (s2\<lparr>drawFlag := True\<rparr>)"
    using s2 assms(2,3)
    by (simp add: OpcodeDxxx_def Let_def DISPLAY_WIDTH_def DISPLAY_HEIGHT_def s1_def)
  ultimately have "OpcodeDxxx rx ry n s =
               Inr (s\<lparr>V := (V s)[0xF := (if collision s x y n then 1 else 0)],
                      display := display s2, drawFlag := True\<rparr>)"
    by simp
  with len2 d2 show ?thesis by blast
qed

text \<open>
  Claim C4. Let the instruction at \<^verbatim>\<open>pc\<close> be \<^verbatim>\<open>DXYN\<close>, let \<open>x\<close> be \<^verbatim>\<open>V[X]\<close> modulo 64, \<open>y\<close> be \<^verbatim>\<open>V[Y]\<close>
  modulo 32 and \<open>n\<close> be \<open>N\<close>, and let the sprite rows that are read (the rows \<open>row < n\<close> with
  \<open>y + row < 32\<close>) lie inside the memory. Then one cycle succeeds, and the state after it is
  the state before it except for four things: \<^verbatim>\<open>pc\<close> has advanced by 2; \<^verbatim>\<open>V[0xF]\<close> is 1 if some
  cell of the grid under a set bit of the sprite held 1 (it goes from on to off) and 0 if
  none did; \<^verbatim>\<open>drawFlag\<close> is set; and each cell \<open>(cx, cy)\<close> of the 64 by 32 grid is XORed with 1
  exactly when the sprite, placed at \<open>(x, y)\<close>, has a set bit over it. Cells are addressed by
  \<open>cx < 64\<close> and \<open>cy < 32\<close> with \<open>x \<le> cx < x + 8\<close> and \<open>y \<le> cy < y + n\<close>: the part of the sprite
  right of column 63 or below row 31 is dropped and nothing wraps to the other edge.
\<close>

theorem draw_sprite:
  assumes "wf s" and "fetch s = Inr w" and "nib1 w = 0xD"
    and "x = unat (V s ! unat (regX w)) mod 64" and "y = unat (V s ! unat (regY w)) mod 32"
    and "n = unat (nib4 w)"
    and "\<forall>row. row < n \<and> y + row < 32 \<longrightarrow> unat (I s) + row < 4096"
  shows "\<exists>d. Cycle rnd s =
               Inr (s\<lparr>pc := pc s + 2,
                      V := (V s)[0xF := (if collision s x y n then 1 else 0)],
                      display := d, drawFlag := True\<rparr>) \<and>
             length d = 2048 \<and>
             (\<forall>cy cx. cy < 32 \<and> cx < 64 \<longrightarrow>
                d ! (cy * 64 + cx) =
                  (if sprite_on s x y n cx cy then display s ! (cy * 64 + cx) XOR 1
                   else display s ! (cy * 64 + cx)))"
proof -
  define s0 where "s0 = s\<lparr>pc := pc s + 2\<rparr>"
  have f0: "V s0 = V s" "I s0 = I s" "display s0 = display s" "memory s0 = memory s"
    by (simp_all add: s0_def)
  have c0: "collision s0 x y n = collision s x y n"
    by (simp add: collision_ex sprite_on_def f0)
  have o0: "sprite_on s0 x y n cx cy = sprite_on s x y n cx cy" for cx cy
    by (simp add: sprite_on_def f0)
  have "Cycle rnd s = OpcodeDxxx (unat (regX w)) (unat (regY w)) n s0"
    using assms(2,3,6) by (simp add: Cycle_dispatch dispatch_def s0_def)
  moreover have "\<exists>d. OpcodeDxxx (unat (regX w)) (unat (regY w)) n s0 =
               Inr (s0\<lparr>V := (V s0)[0xF := (if collision s0 x y n then 1 else 0)], display := d,
                      drawFlag := True\<rparr>) \<and>
             length d = 2048 \<and>
             (\<forall>cy cx. cy < 32 \<and> cx < 64 \<longrightarrow>
                d ! (cy * 64 + cx) =
                  (if sprite_on s0 x y n cx cy then display s0 ! (cy * 64 + cx) XOR 1
                   else display s0 ! (cy * 64 + cx)))"
    using assms(1,4,5,7)
    by (intro OpcodeDxxx_ok) (simp_all add: f0 wf_def DISPLAY_WIDTH_def DISPLAY_HEIGHT_def)
  ultimately show ?thesis
    unfolding c0 o0 f0 by (simp add: s0_def)
qed

lemma sprite_bit_FF: "c < 8 \<Longrightarrow> sprite_bit 0xFF c"
proof -
  assume "c < 8"
  then have "c = 0 \<or> c = 1 \<or> c = 2 \<or> c = 3 \<or> c = 4 \<or> c = 5 \<or> c = 6 \<or> c = 7" by arith
  then show ?thesis by (auto simp add: sprite_bit_def)
qed


lemma draw_example_eq:
  "draw_example =
     \<lparr>memory = (fontset @ replicate 4016 0)[0x200 := 0xD0, 0x201 := 0x12, 0x202 := 0xD0,
                  0x203 := 0x12, 0x300 := 0xFF, 0x301 := 0xFF],
      V = (replicate 16 0)[0 := 60, 1 := 0], I = 0x300,
       pc = 0x200, sp = 0, stack = replicate 16 0, delay_timer = 0,
       sound_timer = 0, keypad = replicate 16 0,
       display = replicate 2048 0, drawFlag = False\<rparr>"
  by (simp add: draw_example_def Chip8_eq)

theorem draw_sprite_witness:
  "wf draw_example \<and> fetch draw_example = Inr 0xD012 \<and> nib1 0xD012 = 0xD \<and>
   unat (V draw_example ! unat (regX 0xD012)) mod 64 = 60 \<and>
   unat (V draw_example ! unat (regY 0xD012)) mod 32 = 0 \<and>
   unat (nib4 0xD012) = 2 \<and> display draw_example = replicate 2048 0 \<and>
   (\<exists>s1 s2. Cycle 0 draw_example = Inr s1 \<and> V s1 ! 0xF = 0 \<and> drawFlag s1 \<and>
       display s1 = map (\<lambda>j. if j div 64 < 2 \<and> 60 \<le> j mod 64 then 1 else 0) [0..<2048] \<and>
       Cycle 0 s1 = Inr s2 \<and> V s2 ! 0xF = 1 \<and> display s2 = replicate 2048 0)"
proof -
  let ?e = draw_example
  have mem: "memory ?e ! 0x300 = 0xFF" "memory ?e ! 0x301 = 0xFF"
    "memory ?e ! 0x200 = 0xD0" "memory ?e ! 0x201 = 0x12"
    "memory ?e ! 0x202 = 0xD0" "memory ?e ! 0x203 = 0x12" "length (memory ?e) = 4096"
    by (simp_all add: draw_example_eq length_fontset)
  have reg: "V ?e ! 0 = 60" "V ?e ! Suc 0 = 0" "length (V ?e) = 16" "I ?e = 0x300" "pc ?e = 0x200"
    by (simp_all add: draw_example_eq)
  have dis: "display ?e = replicate 2048 0" by (simp add: draw_example_eq)
  have h1: "wf ?e"
    by (simp add: wf_def draw_example_eq MEMORY_SIZE_def DISPLAY_WIDTH_def DISPLAY_HEIGHT_def
        length_fontset)
  have h2: "fetch ?e = Inr 0xD012"
    by (simp add: fetch_def reg mem MEMORY_SIZE_def)
  have h3: "nib1 0xD012 = 0xD" by (simp add: nib1_def)
  have rx: "unat (regX 0xD012) = 0" by (simp add: regX_def)
  have ry: "unat (regY 0xD012) = 1" by (simp add: regY_def)
  have h4: "60 = unat (V ?e ! unat (regX 0xD012)) mod 64" by (simp add: rx reg)
  have h5: "0 = unat (V ?e ! unat (regY 0xD012)) mod 32" by (simp add: ry reg)
  have h6: "2 = unat (nib4 0xD012)" by (simp add: nib4_def)
  have h7: "\<forall>row. row < 2 \<and> 0 + row < 32 \<longrightarrow> unat (I ?e) + row < 4096" by (simp add: reg)
  have on: "sprite_on s 60 0 2 cx cy \<longleftrightarrow> cy < 2 \<and> 60 \<le> cx"
    if "cx < 64" "I s = 0x300" "memory s ! 0x300 = 0xFF" "memory s ! 0x301 = 0xFF" for s cx cy
  proof (cases "cy < 2 \<and> 60 \<le> cx")
    case True
    then have "cy = 0 \<or> cy = 1" by arith
    moreover have "sprite_bit 0xFF (cx - 60)" using that(1) by (intro sprite_bit_FF) simp
    ultimately show ?thesis using True that by (auto simp add: sprite_on_def)
  next
    case False
    then show ?thesis by (auto simp add: sprite_on_def)
  qed
  have c1: "\<not> collision ?e 60 0 2"
    by (simp add: collision_ex dis DISPLAY_WIDTH_def DISPLAY_HEIGHT_def cell_lt)
  obtain d1 where d1: "Cycle 0 ?e =
               Inr (?e\<lparr>pc := pc ?e + 2,
                      V := (V ?e)[0xF := (if collision ?e 60 0 2 then 1 else 0)],
                      display := d1, drawFlag := True\<rparr>)" "length d1 = 2048"
     "\<forall>cy cx. cy < 32 \<and> cx < 64 \<longrightarrow>
                d1 ! (cy * 64 + cx) =
                  (if sprite_on ?e 60 0 2 cx cy then display ?e ! (cy * 64 + cx) XOR 1
                   else display ?e ! (cy * 64 + cx))"
    using draw_sprite [OF h1 h2 h3 h4 h5 h6 h7, of 0] by blast
  define s1 where "s1 = ?e\<lparr>pc := 0x202, V := (V ?e)[0xF := 0], display := d1, drawFlag := True\<rparr>"
  have cy1: "Cycle 0 ?e = Inr s1" using d1(1) c1 by (simp add: s1_def reg)
  have p1: "d1 ! (cy * 64 + cx) = (if cy < 2 \<and> 60 \<le> cx then 1 else 0)"
    if "cy < 32" "cx < 64" for cy cx
    using d1(3) that on [OF that(2) reg(4) mem(1,2), of cy] by (simp add: dis cell_lt)
  have e1: "d1 = map (\<lambda>j. if j div 64 < 2 \<and> 60 \<le> j mod 64 then 1 else 0) [0..<2048]"
  proof (rule nth_equalityI)
    show "length d1 = length (map (\<lambda>j. if j div 64 < 2 \<and> 60 \<le> j mod 64 then 1 else (0::u8)) [0..<2048])"
      using d1(2) by simp
    fix j assume "j < length d1"
    then have j: "j < 2048" using d1(2) by simp
    then have "j div 64 < 32" "j mod 64 < 64" by simp_all
    then have "d1 ! ((j div 64) * 64 + j mod 64) = (if j div 64 < 2 \<and> 60 \<le> j mod 64 then 1 else 0)"
      by (rule p1)
    then show "d1 ! j = map (\<lambda>j. if j div 64 < 2 \<and> 60 \<le> j mod 64 then 1 else 0) [0..<2048] ! j"
      using j by simp
  qed
  have s1f: "memory s1 = memory ?e" "I s1 = 0x300" "pc s1 = 0x202" "V s1 = (V ?e)[0xF := 0]"
    "display s1 = d1" "drawFlag s1"
    by (simp_all add: s1_def reg)
  have g1: "wf s1" using h1 d1(2) by (simp add: wf_def s1_def DISPLAY_WIDTH_def DISPLAY_HEIGHT_def)
  have g2: "fetch s1 = Inr 0xD012"
    by (simp add: fetch_def s1f mem MEMORY_SIZE_def)
  have g4: "60 = unat (V s1 ! unat (regX 0xD012)) mod 64" by (simp add: rx s1f reg)
  have g5: "0 = unat (V s1 ! unat (regY 0xD012)) mod 32" by (simp add: ry s1f reg)
  have g7: "\<forall>row. row < 2 \<and> 0 + row < 32 \<longrightarrow> unat (I s1) + row < 4096" by (simp add: s1f)
  have "sprite_on s1 60 0 2 60 0"
    using on [of 60 s1 0] by (simp add: s1f mem)
  moreover have "display s1 ! (0 * 64 + 60) = 1" using p1 [of 0 60] by (simp add: s1f)
  ultimately have c2: "collision s1 60 0 2"
    unfolding collision_ex DISPLAY_WIDTH_def DISPLAY_HEIGHT_def
    by (intro exI [of _ 0] exI [of _ 60]) simp
  obtain d2 where d2: "Cycle 0 s1 =
               Inr (s1\<lparr>pc := pc s1 + 2,
                      V := (V s1)[0xF := (if collision s1 60 0 2 then 1 else 0)],
                      display := d2, drawFlag := True\<rparr>)" "length d2 = 2048"
     "\<forall>cy cx. cy < 32 \<and> cx < 64 \<longrightarrow>
                d2 ! (cy * 64 + cx) =
                  (if sprite_on s1 60 0 2 cx cy then display s1 ! (cy * 64 + cx) XOR 1
                   else display s1 ! (cy * 64 + cx))"
    using draw_sprite [OF g1 g2 h3 g4 g5 h6 g7, of 0] by blast
  define s2 where "s2 = s1\<lparr>pc := pc s1 + 2, V := (V s1)[0xF := 1], display := d2, drawFlag := True\<rparr>"
  have cy2: "Cycle 0 s1 = Inr s2" using d2(1) c2 by (simp add: s2_def)
  have p2: "d2 ! (cy * 64 + cx) = 0" if "cy < 32" "cx < 64" for cy cx
    using d2(3) that on [of cx s1 cy] p1 [OF that] by (simp add: s1f mem)
  have e2: "d2 = replicate 2048 0"
  proof (rule nth_equalityI)
    show "length d2 = length (replicate 2048 (0::u8))" using d2(2) by simp
    fix j assume "j < length d2"
    then have j: "j < 2048" using d2(2) by simp
    then have "j div 64 < 32" "j mod 64 < 64" by simp_all
    then have "d2 ! ((j div 64) * 64 + j mod 64) = 0" by (rule p2)
    then show "d2 ! j = replicate 2048 0 ! j" using j by simp
  qed
  have "V s1 ! 0xF = 0" by (simp add: s1f reg)
  moreover have "V s2 ! 0xF = 1" by (simp add: s2_def s1f reg)
  moreover have "display s2 = replicate 2048 0" by (simp add: s2_def e2)
  moreover have "display s1 = map (\<lambda>j. if j div 64 < 2 \<and> 60 \<le> j mod 64 then 1 else 0) [0..<2048]"
    using e1 by (simp add: s1f)
  ultimately have "\<exists>s1 s2. Cycle 0 draw_example = Inr s1 \<and> V s1 ! 0xF = 0 \<and> drawFlag s1 \<and>
       display s1 = map (\<lambda>j. if j div 64 < 2 \<and> 60 \<le> j mod 64 then 1 else 0) [0..<2048] \<and>
       Cycle 0 s1 = Inr s2 \<and> V s2 ! 0xF = 1 \<and> display s2 = replicate 2048 0"
    using cy1 cy2 s1f(6) by blast
  with h1 h2 h3 h4 h5 h6 dis show ?thesis by simp
qed

section \<open>Subscripts of the memory\<close>

lemma OpcodeDxxx_fail:
  assumes "row < n" and "unat (V s ! ry) mod 32 + row < 32" and "\<not> unat (I s) + row < 4096"
  shows "OpcodeDxxx rx ry n s = Inl OutOfBounds"
proof -
  define s1 where "s1 = s\<lparr>V := (V s)[0xF := 0]\<rparr>"
  have "\<not> unat (I s1) + row < 4096" using assms(3) by (simp add: s1_def)
  then have "draw_rows (unat (V s ! rx) mod 64) (unat (V s ! ry) mod 32) n 0 s1 = Inl OutOfBounds"
    using assms(1,2) by (intro draw_rows_fail [of 0 row]) simp_all
  then show ?thesis
    by (simp add: OpcodeDxxx_def Let_def DISPLAY_WIDTH_def DISPLAY_HEIGHT_def s1_def)
qed

lemma bcd_cases:
  "OpcodeFxxx reg 0x33 s =
     (if unat (I s) + 2 < 4096 then
        Inr (s\<lparr>memory := (memory s)[unat (I s) := V s ! reg div 100,
                                      unat (I s) + 1 := (V s ! reg div 10) mod 10,
                                      unat (I s) + 2 := V s ! reg mod 10]\<rparr>)
      else Inl OutOfBounds)"
  by (cases "unat (I s) < 4096"; cases "unat (I s) + 1 < 4096"; cases "unat (I s) + 2 < 4096")
    (simp_all add: OpcodeFxxx_def mem_write_def MEMORY_SIZE_def)

lemma rows_read_iff:
  "(\<forall>row. row < n \<and> y + row < 32 \<longrightarrow> a + row < (4096::nat)) \<longleftrightarrow>
   (min n (32 - y) = 0 \<or> a + (min n (32 - y) - 1) < 4096)"
proof
  assume a: "\<forall>row. row < n \<and> y + row < 32 \<longrightarrow> a + row < 4096"
  show "min n (32 - y) = 0 \<or> a + (min n (32 - y) - 1) < 4096"
  proof (cases "min n (32 - y) = 0")
    case True then show ?thesis ..
  next
    case False
    then have "min n (32 - y) - 1 < n \<and> y + (min n (32 - y) - 1) < 32" by auto
    with a show ?thesis by blast
  qed
next
  assume b: "min n (32 - y) = 0 \<or> a + (min n (32 - y) - 1) < 4096"
  show "\<forall>row. row < n \<and> y + row < 32 \<longrightarrow> a + row < 4096"
  proof (intro allI impI)
    fix row assume "row < n \<and> y + row < 32"
    then have "row < min n (32 - y)" by auto
    with b show "a + row < 4096" by auto
  qed
qed

text \<open>
  Claim C9. The draw, BCD and register-block instructions subscript the memory with the
  whole 16-bit value of \<^verbatim>\<open>I\<close> plus an offset, unchecked and unmasked. With the instruction
  fetched, the cycle stays inside the 4096 bytes exactly when \<^verbatim>\<open>I\<close> plus the highest offset
  used is below 4096: for \<^verbatim>\<open>DXYN\<close> the offsets used are those of the rows read, \<open>0\<close> to
  \<open>min N (32 - y) - 1\<close> with \<open>y\<close> being \<^verbatim>\<open>V[Y]\<close> modulo 32 (none when that minimum is 0); for
  \<^verbatim>\<open>FX33\<close> the highest offset is 2; for \<^verbatim>\<open>FX55\<close> and \<^verbatim>\<open>FX65\<close> it is \<open>X\<close>.
\<close>

theorem index_bounds:
  assumes "wf s" and "fetch s = Inr w"
  shows "(nib1 w = 0xD \<longrightarrow>
            ((\<exists>s'. Cycle rnd s = Inr s') \<longleftrightarrow>
             (min (unat (nib4 w)) (32 - unat (V s ! unat (regY w)) mod 32) = 0 \<or>
              unat (I s) + (min (unat (nib4 w)) (32 - unat (V s ! unat (regY w)) mod 32) - 1)
                < 4096))) \<and>
         (nib1 w = 0xF \<and> val w = 0x33 \<longrightarrow>
            ((\<exists>s'. Cycle rnd s = Inr s') \<longleftrightarrow> unat (I s) + 2 < 4096)) \<and>
         (nib1 w = 0xF \<and> (val w = 0x55 \<or> val w = 0x65) \<longrightarrow>
            ((\<exists>s'. Cycle rnd s = Inr s') \<longleftrightarrow> unat (I s) + unat (regX w) < 4096))"
proof (intro conjI impI)
  assume d: "nib1 w = 0xD"
  define y where "y = unat (V s ! unat (regY w)) mod 32"
  define n where "n = unat (nib4 w)"
  have "(\<exists>s'. Cycle rnd s = Inr s') \<longleftrightarrow>
        (\<forall>row. row < n \<and> y + row < 32 \<longrightarrow> unat (I s) + row < 4096)"
  proof
    assume "\<forall>row. row < n \<and> y + row < 32 \<longrightarrow> unat (I s) + row < 4096"
    then have "\<exists>d. OpcodeDxxx (unat (regX w)) (unat (regY w)) n (s\<lparr>pc := pc s + 2\<rparr>) =
               Inr (s\<lparr>pc := pc s + 2,
                      V := (V (s\<lparr>pc := pc s + 2\<rparr>))
                        [0xF := (if collision (s\<lparr>pc := pc s + 2\<rparr>)
                                      (unat (V s ! unat (regX w)) mod 64) y n then 1 else 0)],
                      display := d, drawFlag := True\<rparr>) \<and>
             length d = 2048 \<and>
             (\<forall>cy cx. cy < 32 \<and> cx < 64 \<longrightarrow>
                d ! (cy * 64 + cx) =
                  (if sprite_on (s\<lparr>pc := pc s + 2\<rparr>) (unat (V s ! unat (regX w)) mod 64) y n cx cy
                   then display (s\<lparr>pc := pc s + 2\<rparr>) ! (cy * 64 + cx) XOR 1
                   else display (s\<lparr>pc := pc s + 2\<rparr>) ! (cy * 64 + cx)))"
      using assms(1)
      by (intro OpcodeDxxx_ok)
        (simp_all add: wf_def y_def DISPLAY_WIDTH_def DISPLAY_HEIGHT_def)
    then obtain s' where
      "OpcodeDxxx (unat (regX w)) (unat (regY w)) n (s\<lparr>pc := pc s + 2\<rparr>) = Inr s'"
      by blast
    then have "Cycle rnd s = Inr s'"
      using assms(2) d by (simp add: Cycle_dispatch dispatch_def n_def)
    then show "\<exists>s'. Cycle rnd s = Inr s'" by blast
  next
    assume ok: "\<exists>s'. Cycle rnd s = Inr s'"
    show "\<forall>row. row < n \<and> y + row < 32 \<longrightarrow> unat (I s) + row < 4096"
    proof (intro allI impI)
      fix row assume r: "row < n \<and> y + row < 32"
      show "unat (I s) + row < 4096"
      proof (rule ccontr)
        assume "\<not> unat (I s) + row < 4096"
        then have "OpcodeDxxx (unat (regX w)) (unat (regY w)) n (s\<lparr>pc := pc s + 2\<rparr>) =
                   Inl OutOfBounds"
          using r by (intro OpcodeDxxx_fail [of row]) (simp_all add: y_def)
        then have "Cycle rnd s = Inl OutOfBounds"
          using assms(2) d by (simp add: Cycle_dispatch dispatch_def n_def)
        with ok show False by simp
      qed
    qed
  qed
  then show "(\<exists>s'. Cycle rnd s = Inr s') \<longleftrightarrow>
             (min (unat (nib4 w)) (32 - unat (V s ! unat (regY w)) mod 32) = 0 \<or>
              unat (I s) + (min (unat (nib4 w)) (32 - unat (V s ! unat (regY w)) mod 32) - 1)
                < 4096)"
    unfolding rows_read_iff y_def n_def .
next
  assume "nib1 w = 0xF \<and> val w = 0x33"
  then have "Cycle rnd s = OpcodeFxxx (unat (regX w)) 0x33 (s\<lparr>pc := pc s + 2\<rparr>)"
    using assms(2) by (simp add: Cycle_dispatch dispatch_def)
  then show "(\<exists>s'. Cycle rnd s = Inr s') \<longleftrightarrow> unat (I s) + 2 < 4096"
    by (simp add: bcd_cases)
next
  assume a: "nib1 w = 0xF \<and> (val w = 0x55 \<or> val w = 0x65)"
  define s0 where "s0 = s\<lparr>pc := pc s + 2\<rparr>"
  have i0: "I s0 = I s" "length (memory s0) = MEMORY_SIZE"
    using assms(1) by (simp_all add: s0_def wf_def)
  from a have "val w = 0x55 \<or> val w = 0x65" by simp
  then show "(\<exists>s'. Cycle rnd s = Inr s') \<longleftrightarrow> unat (I s) + unat (regX w) < 4096"
  proof
    assume v: "val w = 0x55"
    have c: "Cycle rnd s = store_regs (unat (regX w)) 0 s0"
      using assms(2) a v by (simp add: Cycle_dispatch dispatch_def OpcodeFxxx_def s0_def)
    show ?thesis
    proof (cases "unat (I s) + unat (regX w) < 4096")
      case True
      then show ?thesis
        using store_regs_ok [of s0 "unat (regX w)" 0] i0 c by (auto simp add: MEMORY_SIZE_def)
    next
      case False
      then show ?thesis
        using store_regs_fail [of 0 "unat (regX w)" s0] i0 c by (simp add: MEMORY_SIZE_def)
    qed
  next
    assume v: "val w = 0x65"
    have c: "Cycle rnd s = load_regs (unat (regX w)) 0 s0"
      using assms(2) a v by (simp add: Cycle_dispatch dispatch_def OpcodeFxxx_def s0_def)
    show ?thesis
    proof (cases "unat (I s) + unat (regX w) < 4096")
      case True
      then show ?thesis
        using load_regs_ok [of s0 "unat (regX w)" 0] i0 c by (auto simp add: MEMORY_SIZE_def)
    next
      case False
      then show ?thesis
        using load_regs_fail [of 0 "unat (regX w)" s0] i0 c by (simp add: MEMORY_SIZE_def)
    qed
  qed
qed


lemma not_Inr_error: "\<not> (\<exists>s'. (r :: error + chip8) = Inr s') \<Longrightarrow> r = Inl OutOfBounds"
proof (cases r)
  case (Inl e)
  then show ?thesis by (cases e) simp
next
  case (Inr s')
  moreover assume "\<not> (\<exists>s'. r = Inr s')"
  ultimately show ?thesis by simp
qed

theorem index_bounds_witness:
  "wf draw_example \<and> fetch draw_example = Inr 0xD012 \<and> nib1 0xD012 = 0xD \<and>
   I draw_example = 0x300 \<and> (\<exists>s'. Cycle 0 draw_example = Inr s') \<and>
   wf draw_oob \<and> fetch draw_oob = Inr 0xD002 \<and> nib1 0xD002 = 0xD \<and>
   I draw_oob = 0xFFF \<and> Cycle 0 draw_oob = Inl OutOfBounds \<and>
   wf (one_instr 0xF0 0x33) \<and> fetch (one_instr 0xF0 0x33) = Inr 0xF033 \<and>
   nib1 0xF033 = 0xF \<and> val 0xF033 = 0x33 \<and> I (one_instr 0xF0 0x33) = 0 \<and>
   (\<exists>s'. Cycle 0 (one_instr 0xF0 0x33) = Inr s') \<and>
   wf store_oob \<and> fetch store_oob = Inr 0xF055 \<and> nib1 0xF055 = 0xF \<and> val 0xF055 = 0x55 \<and>
   I store_oob = 0x1000 \<and> Cycle 0 store_oob = Inl OutOfBounds"
proof -
  have a1: "wf draw_example"
    by (simp add: wf_def draw_example_eq MEMORY_SIZE_def DISPLAY_WIDTH_def DISPLAY_HEIGHT_def
        length_fontset)
  have a2: "fetch draw_example = Inr 0xD012"
    by (simp add: fetch_def draw_example_eq MEMORY_SIZE_def length_fontset)
  have a3: "nib1 0xD012 = 0xD" by (simp add: nib1_def)
  have a4: "I draw_example = 0x300" by (simp add: draw_example_eq)
  have va: "V draw_example ! unat (regY 0xD012) = 0"
    by (simp add: draw_example_eq regY_def)
  have a5: "\<exists>s'. Cycle 0 draw_example = Inr s'"
    using index_bounds [OF a1 a2, of 0] a3 by (simp add: a4 va nib4_def)
  have b1: "wf draw_oob" using wf_one_instr [of "0xD0" "0x02"] by (simp add: draw_oob_def wf_def)
  have "fetch draw_oob = fetch (one_instr 0xD0 0x02)" by (simp add: draw_oob_def fetch_def)
  then have b2: "fetch draw_oob = Inr 0xD002" by (simp add: fetch_one_instr)
  have b3: "nib1 0xD002 = 0xD" by (simp add: nib1_def)
  have b4: "I draw_oob = 0xFFF" by (simp add: draw_oob_def)
  have v: "V draw_oob ! unat (regY 0xD002) = 0"
    by (simp add: draw_oob_def one_instr_def Chip8_eq regY_def)
  have "\<not> (\<exists>s'. Cycle 0 draw_oob = Inr s')"
    using index_bounds [OF b1 b2, of 0] b3 by (simp add: b4 v nib4_def)
  then have b5: "Cycle 0 draw_oob = Inl OutOfBounds" by (rule not_Inr_error)
  have c1: "wf (one_instr 0xF0 0x33)" by (rule wf_one_instr)
  have c2: "fetch (one_instr 0xF0 0x33) = Inr 0xF033" by (simp add: fetch_one_instr)
  have c3: "nib1 0xF033 = 0xF \<and> val 0xF033 = 0x33" by (simp add: nib1_def val_def)
  have c4: "I (one_instr 0xF0 0x33) = 0" by (simp add: one_instr_def Chip8_eq)
  have c5: "\<exists>s'. Cycle 0 (one_instr 0xF0 0x33) = Inr s'"
    using index_bounds [OF c1 c2, of 0] c3 by (simp add: c4)
  have d1: "wf store_oob" using wf_one_instr [of "0xF0" "0x55"] by (simp add: store_oob_def wf_def)
  have "fetch store_oob = fetch (one_instr 0xF0 0x55)" by (simp add: store_oob_def fetch_def)
  then have d2: "fetch store_oob = Inr 0xF055" by (simp add: fetch_one_instr)
  have d3: "nib1 0xF055 = 0xF \<and> (val 0xF055 = 0x55 \<or> val 0xF055 = 0x65)"
    by (simp add: nib1_def val_def)
  have d3': "val 0xF055 = 0x55" by (simp add: val_def)
  have d4: "I store_oob = 0x1000" by (simp add: store_oob_def)
  have "\<not> (\<exists>s'. Cycle 0 store_oob = Inr s')"
    using index_bounds [OF d1 d2, of 0] d3 by (simp add: d4 regX_def)
  then have d5: "Cycle 0 store_oob = Inl OutOfBounds" by (rule not_Inr_error)
  from a1 a2 a3 a4 a5 b1 b2 b3 b4 b5 c1 c2 c3 c4 c5 d1 d2 d3 d3' d4 d5 show ?thesis by simp
qed

end
